theory Spec2Isabelle
  imports
    Main
    "HOL-Library.Word"
    "HOL-Library.Char_ord"
    "HOL-Library.List_Lexorder"
    "HOL-Library.Multiset"
begin

unbundle bit_operations_syntax

section \<open>The metric record of modules/prober/manager/metric.go\<close>

text \<open>
  A Go \<open>string\<close> is a sequence of bytes and is compared bytewise, a proper prefix
  being smaller. \<^typ>\<open>string\<close> is a list of 8-bit characters; with the character order
  of \<open>Char_ord\<close> and the lexicographic list order of \<open>List_Lexorder\<close> the
  comparison \<open>key > tag.Key\<close> of the source is \<open>(<)\<close> on \<^typ>\<open>string\<close>.
\<close>

subsection \<open>Values of type interface{}\<close>

text \<open>
  A \<open>float64\<close> and a \<open>float32\<close> are carried as their IEEE-754 bit patterns; the
  code never computes with them. A fixed-width integer is a word of its width; the
  platform-sized \<open>int\<close> and \<open>uint\<close> are taken at 64 bits.
\<close>

type_synonym float64 = "64 word"
type_synonym float32 = "32 word"

text \<open>
  Modelled from the spec: \<open>strconv.ParseFloat\<close> is the Go standard library, not under
  src, and the conversions to \<open>float64\<close> are the language's. The spec calls
  \<open>ParseFloat\<close> the parse of a base-10 floating-point literal, which may fail. All
  are parameters of the model: \<open>i2f\<close> is the conversion \<open>float64(v)\<close> of an integer
  value, \<open>f32to64\<close> the conversion \<open>float64(v)\<close> of a \<open>float32\<close>, and
  \<open>ParseFloat s\<close> is \<open>strconv.ParseFloat(s, 64)\<close>, \<open>None\<close> for a non-nil error
  and \<open>Some f\<close> for the value returned with a nil error.
\<close>

record fpu =
  i2f :: "int \<Rightarrow> float64"
  f32to64 :: "float32 \<Rightarrow> float64"
  ParseFloat :: "string \<Rightarrow> float64 option"

text \<open>
  The dynamic value of an \<open>interface{}\<close>: the nil interface, one constructor for each
  type the switch of \<open>convertField\<close> names, and \<open>VOther\<close> for a value of any other
  type (the number only tells such values apart). A pointer is \<open>None\<close> when nil and
  otherwise holds the value it points to at the time of the call; a \<open>[]byte\<close> holds
  its bytes as the string that \<open>string(v)\<close> makes of them.
\<close>

datatype go_value =
    VNil
  | VFloat64 float64
  | VInt64 "64 word"
  | VString string
  | VBool bool
  | VInt "64 word"
  | VUint "64 word"
  | VUint64 "64 word"
  | VBytes string
  | VInt32 "32 word"
  | VInt16 "16 word"
  | VInt8 "8 word"
  | VUint32 "32 word"
  | VUint16 "16 word"
  | VUint8 "8 word"
  | VFloat32 float32
  | PFloat64 "float64 option"
  | PInt64 "64 word option"
  | PString "string option"
  | PBool "bool option"
  | PInt "64 word option"
  | PUint "64 word option"
  | PUint64 "64 word option"
  | PBytes "string option"
  | PInt32 "32 word option"
  | PInt16 "16 word option"
  | PInt8 "8 word option"
  | PUint32 "32 word option"
  | PUint16 "16 word option"
  | PUint8 "8 word option"
  | PFloat32 "float32 option"
  | VOther nat

subsection \<open>The field normalizer\<close>

definition atof :: "fpu \<Rightarrow> string \<Rightarrow> go_value" where
  "atof rt s = (case ParseFloat rt s of None \<Rightarrow> VNil | Some f \<Rightarrow> VFloat64 f)"

definition btof :: "fpu \<Rightarrow> bool \<Rightarrow> go_value" where
  "btof rt b = (if b then VFloat64 (i2f rt 1) else VFloat64 (i2f rt 0))"

text \<open>
  The type switch, in the order of the source. A pointer case whose pointer is nil
  falls out of the switch to the final \<open>return nil\<close>.
\<close>

fun convertField :: "fpu \<Rightarrow> go_value \<Rightarrow> go_value" where
  "convertField rt (VFloat64 v) = VFloat64 v"
| "convertField rt (VInt64 v) = VFloat64 (i2f rt (sint v))"
| "convertField rt (VString v) = atof rt v"
| "convertField rt (VBool v) = btof rt v"
| "convertField rt (VInt v) = VFloat64 (i2f rt (sint v))"
| "convertField rt (VUint v) = VFloat64 (i2f rt (uint v))"
| "convertField rt (VUint64 v) = VFloat64 (i2f rt (uint v))"
| "convertField rt (VBytes v) = atof rt v"
| "convertField rt (VInt32 v) = VFloat64 (i2f rt (sint v))"
| "convertField rt (VInt16 v) = VFloat64 (i2f rt (sint v))"
| "convertField rt (VInt8 v) = VFloat64 (i2f rt (sint v))"
| "convertField rt (VUint32 v) = VFloat64 (i2f rt (uint v))"
| "convertField rt (VUint16 v) = VFloat64 (i2f rt (uint v))"
| "convertField rt (VUint8 v) = VFloat64 (i2f rt (uint v))"
| "convertField rt (VFloat32 v) = VFloat64 (f32to64 rt v)"
| "convertField rt (PFloat64 p) = (case p of Some v \<Rightarrow> VFloat64 v | None \<Rightarrow> VNil)"
| "convertField rt (PInt64 p) = (case p of Some v \<Rightarrow> VFloat64 (i2f rt (sint v)) | None \<Rightarrow> VNil)"
| "convertField rt (PString p) = (case p of Some v \<Rightarrow> atof rt v | None \<Rightarrow> VNil)"
| "convertField rt (PBool p) = (case p of Some v \<Rightarrow> btof rt v | None \<Rightarrow> VNil)"
| "convertField rt (PInt p) = (case p of Some v \<Rightarrow> VFloat64 (i2f rt (sint v)) | None \<Rightarrow> VNil)"
| "convertField rt (PUint p) = (case p of Some v \<Rightarrow> VFloat64 (i2f rt (uint v)) | None \<Rightarrow> VNil)"
| "convertField rt (PUint64 p) = (case p of Some v \<Rightarrow> VFloat64 (i2f rt (uint v)) | None \<Rightarrow> VNil)"
| "convertField rt (PBytes p) = (case p of Some v \<Rightarrow> atof rt v | None \<Rightarrow> VNil)"
| "convertField rt (PInt32 p) = (case p of Some v \<Rightarrow> VFloat64 (i2f rt (sint v)) | None \<Rightarrow> VNil)"
| "convertField rt (PInt16 p) = (case p of Some v \<Rightarrow> VFloat64 (i2f rt (sint v)) | None \<Rightarrow> VNil)"
| "convertField rt (PInt8 p) = (case p of Some v \<Rightarrow> VFloat64 (i2f rt (sint v)) | None \<Rightarrow> VNil)"
| "convertField rt (PUint32 p) = (case p of Some v \<Rightarrow> VFloat64 (i2f rt (uint v)) | None \<Rightarrow> VNil)"
| "convertField rt (PUint16 p) = (case p of Some v \<Rightarrow> VFloat64 (i2f rt (uint v)) | None \<Rightarrow> VNil)"
| "convertField rt (PUint8 p) = (case p of Some v \<Rightarrow> VFloat64 (i2f rt (uint v)) | None \<Rightarrow> VNil)"
| "convertField rt (PFloat32 p) = (case p of Some v \<Rightarrow> VFloat64 (f32to64 rt v) | None \<Rightarrow> VNil)"
| "convertField rt (VOther n) = VNil"
| "convertField rt VNil = VNil"

subsection \<open>The record\<close>

text \<open>
  Modelled from the spec: the type \<open>telegraf.ValueType\<close> is declared in the telegraf
  library, not under src; the spec gives it as the closed set below.
\<close>

datatype ValueType = Untyped | Counter | Gauge | Summary | Histogram

text \<open>The structs \<open>telegraf.Tag\<close> and \<open>telegraf.Field\<close>, as the code uses them.\<close>

record Tag =
  Key :: string
  Value :: string

record Field =
  FKey :: string
  FValue :: go_value

text \<open>A \<open>time.Time\<close> is only stored and returned; it is taken as Unix nanoseconds.\<close>

type_synonym Time = int

text \<open>
  The struct \<open>metric\<close>, on values: each slice of pointers is the list of the structs
  its elements point to (the field \<open>fields\<close> is \<open>fields_m\<close> here, the name being
  taken by the record package). The stores behind the slices are modelled further below,
  where a property depends on what two records share.
\<close>

record metric =
  name :: string
  tags :: "Tag list"
  fields_m :: "Field list"
  tm :: Time
  tp :: ValueType
  aggregate :: bool

definition Name :: "metric \<Rightarrow> string" where
  "Name m = name m"

definition TagList :: "metric \<Rightarrow> Tag list" where
  "TagList m = tags m"

definition FieldList :: "metric \<Rightarrow> Field list" where
  "FieldList m = fields_m m"

definition Time :: "metric \<Rightarrow> Time" where
  "Time m = tm m"

definition Type :: "metric \<Rightarrow> ValueType" where
  "Type m = tp m"

text \<open>\<open>AddTag\<close>: the loop over \<open>m.tags\<close>, and after it the append.\<close>

fun AddTag_loop :: "string \<Rightarrow> string \<Rightarrow> Tag list \<Rightarrow> Tag list" where
  "AddTag_loop key val [] = [\<lparr>Key = key, Value = val\<rparr>]"
| "AddTag_loop key val (tag # rest) =
     (if key > Key tag then tag # AddTag_loop key val rest
      else if key = Key tag then tag\<lparr>Value := val\<rparr> # rest
      else \<lparr>Key = key, Value = val\<rparr> # tag # rest)"

definition AddTag :: "metric \<Rightarrow> string \<Rightarrow> string \<Rightarrow> metric" where
  "AddTag m key val = m\<lparr>tags := AddTag_loop key val (tags m)\<rparr>"

fun HasTag_loop :: "string \<Rightarrow> Tag list \<Rightarrow> bool" where
  "HasTag_loop key [] = False"
| "HasTag_loop key (tag # rest) = (if Key tag = key then True else HasTag_loop key rest)"

definition HasTag :: "metric \<Rightarrow> string \<Rightarrow> bool" where
  "HasTag m key = HasTag_loop key (tags m)"

fun GetTag_loop :: "string \<Rightarrow> Tag list \<Rightarrow> string \<times> bool" where
  "GetTag_loop key [] = ('''', False)"
| "GetTag_loop key (tag # rest) =
     (if Key tag = key then (Value tag, True) else GetTag_loop key rest)"

definition GetTag :: "metric \<Rightarrow> string \<Rightarrow> string \<times> bool" where
  "GetTag m key = GetTag_loop key (tags m)"

text \<open>
  \<open>RemoveTag\<close>: at the first entry with the key, the entries after it move one place
  down and the slice loses its last place.
\<close>

fun RemoveTag_loop :: "string \<Rightarrow> Tag list \<Rightarrow> Tag list" where
  "RemoveTag_loop key [] = []"
| "RemoveTag_loop key (tag # rest) =
     (if Key tag = key then rest else tag # RemoveTag_loop key rest)"

definition RemoveTag :: "metric \<Rightarrow> string \<Rightarrow> metric" where
  "RemoveTag m key = m\<lparr>tags := RemoveTag_loop key (tags m)\<rparr>"

text \<open>\<open>AddField\<close>: the value is normalized on both paths.\<close>

fun AddField_loop :: "fpu \<Rightarrow> string \<Rightarrow> go_value \<Rightarrow> Field list \<Rightarrow> Field list" where
  "AddField_loop rt key val [] = [\<lparr>FKey = key, FValue = convertField rt val\<rparr>]"
| "AddField_loop rt key val (field # rest) =
     (if key = FKey field then \<lparr>FKey = key, FValue = convertField rt val\<rparr> # rest
      else field # AddField_loop rt key val rest)"

definition AddField :: "fpu \<Rightarrow> metric \<Rightarrow> string \<Rightarrow> go_value \<Rightarrow> metric" where
  "AddField rt m key val = m\<lparr>fields_m := AddField_loop rt key val (fields_m m)\<rparr>"

fun HasField_loop :: "string \<Rightarrow> Field list \<Rightarrow> bool" where
  "HasField_loop key [] = False"
| "HasField_loop key (field # rest) =
     (if FKey field = key then True else HasField_loop key rest)"

definition HasField :: "metric \<Rightarrow> string \<Rightarrow> bool" where
  "HasField m key = HasField_loop key (fields_m m)"

fun GetField_loop :: "string \<Rightarrow> Field list \<Rightarrow> go_value \<times> bool" where
  "GetField_loop key [] = (VNil, False)"
| "GetField_loop key (field # rest) =
     (if FKey field = key then (FValue field, True) else GetField_loop key rest)"

definition GetField :: "metric \<Rightarrow> string \<Rightarrow> go_value \<times> bool" where
  "GetField m key = GetField_loop key (fields_m m)"

fun RemoveField_loop :: "string \<Rightarrow> Field list \<Rightarrow> Field list" where
  "RemoveField_loop key [] = []"
| "RemoveField_loop key (field # rest) =
     (if FKey field = key then rest else field # RemoveField_loop key rest)"

definition RemoveField :: "metric \<Rightarrow> string \<Rightarrow> metric" where
  "RemoveField m key = m\<lparr>fields_m := RemoveField_loop key (fields_m m)\<rparr>"

definition SetTime :: "metric \<Rightarrow> Time \<Rightarrow> metric" where
  "SetTime m t = m\<lparr>tm := t\<rparr>"

text \<open>\<open>SetAggregate\<close> stores the constant \<open>true\<close>; the body does not read \<open>b\<close>.\<close>

definition SetAggregate :: "metric \<Rightarrow> bool \<Rightarrow> metric" where
  "SetAggregate m b = m\<lparr>aggregate := True\<rparr>"

definition IsAggregate :: "metric \<Rightarrow> bool" where
  "IsAggregate m = aggregate m"

subsection \<open>The identity hash\<close>

text \<open>
  Modelled from the spec: \<open>hash/fnv\<close> is the Go standard library, not under src. The
  spec names the standard FNV-1a 64-bit offset basis and prime; \<open>Write\<close> takes each
  byte into the sum by exclusive or and multiplies by the prime, modulo \<open>2^64\<close>.
\<close>

definition offset64 :: "64 word" where
  "offset64 = 14695981039346656037"

definition prime64 :: "64 word" where
  "prime64 = 1099511628211"

definition New64a :: "64 word" where
  "New64a = offset64"

fun Write :: "64 word \<Rightarrow> 8 word list \<Rightarrow> 64 word" where
  "Write hash [] = hash"
| "Write hash (c # data) = Write ((hash XOR ucast c) * prime64) data"

definition Sum64 :: "64 word \<Rightarrow> 64 word" where
  "Sum64 s = s"

text \<open>The conversion \<open>[]byte(s)\<close>, and the string of one line feed.\<close>

definition bytes :: "string \<Rightarrow> 8 word list" where
  "bytes s = map of_char s"

definition LF :: string where
  "LF = [CHR 0x0A]"

text \<open>\<open>HashID\<close>: the six calls of \<open>Write\<close> in the order of the source.\<close>

fun HashID_loop :: "64 word \<Rightarrow> Tag list \<Rightarrow> 64 word" where
  "HashID_loop h [] = h"
| "HashID_loop h (tag # rest) =
     (let h = Write h (bytes (Key tag));
          h = Write h (bytes LF);
          h = Write h (bytes (Value tag));
          h = Write h (bytes LF)
      in HashID_loop h rest)"

definition HashID :: "metric \<Rightarrow> 64 word" where
  "HashID m =
     (let h = New64a;
          h = Write h (bytes (name m));
          h = Write h (bytes LF);
          h = HashID_loop h (tags m)
      in Sum64 h)"

text \<open>
  The digest as the specification words it: FNV-1a over one byte sequence, the name
  and a line feed, then for each tag in stored order the key, a line feed, the value
  and a line feed. The constants are the standard ones, in their usual hexadecimal
  writing.
\<close>

definition fnv1a_64 :: "8 word list \<Rightarrow> 64 word" where
  "fnv1a_64 bs = foldl (\<lambda>acc b. (acc XOR ucast b) * 0x100000001b3) 0xcbf29ce484222325 bs"

definition hash_input :: "metric \<Rightarrow> 8 word list" where
  "hash_input m =
     bytes (name m) @ [0x0A] @
     concat (map (\<lambda>t. bytes (Key t) @ [0x0A] @ bytes (Value t) @ [0x0A]) (tags m))"

subsection \<open>Construction\<close>

text \<open>
  A Go \<open>map\<close> is given by its entries in the order in which \<open>range\<close> visits them,
  an order the language leaves open; its keys are pairwise distinct. The variadic
  \<open>tp\<close> is the list of its arguments. \<open>sort.Slice\<close> is \<open>sort_key\<close>: the keys of a
  map being distinct, every sorting of the entries by key gives the same list
  (\<open>sort_Slice_unique\<close> below). The error result is the constant nil and is left out.
\<close>

definition NewMetric_field :: "fpu \<Rightarrow> metric \<Rightarrow> string \<times> go_value \<Rightarrow> metric" where
  "NewMetric_field rt m kv =
     (case kv of (k, v) \<Rightarrow>
        (let v = convertField rt v in
         if v = VNil then m else AddField rt m k v))"

definition NewMetric ::
  "fpu \<Rightarrow> string \<Rightarrow> (string \<times> string) list \<Rightarrow> (string \<times> go_value) list \<Rightarrow> Time \<Rightarrow>
     ValueType list \<Rightarrow> metric" where
  "NewMetric rt nm tagmap fieldmap t tps =
     (let vtype = (case tps of tp0 # _ \<Rightarrow> tp0 | [] \<Rightarrow> Untyped);
          m = \<lparr>name = nm, tags = [], fields_m = [], tm = t, tp = vtype, aggregate = False\<rparr>;
          m = (if length tagmap > 0
               then m\<lparr>tags := sort_key Key (map (\<lambda>(k, v). \<lparr>Key = k, Value = v\<rparr>) tagmap)\<rparr>
               else m);
          m = (if length fieldmap > 0
               then foldl (NewMetric_field rt) (m\<lparr>fields_m := []\<rparr>) fieldmap
               else m)
      in m)"

text \<open>A call of one of the mutators, and a run of such calls on a record.\<close>

datatype call =
    CallAddTag string string
  | CallRemoveTag string
  | CallAddField string go_value
  | CallRemoveField string
  | CallSetTime Time

fun perform :: "fpu \<Rightarrow> metric \<Rightarrow> call \<Rightarrow> metric" where
  "perform rt m (CallAddTag k v) = AddTag m k v"
| "perform rt m (CallRemoveTag k) = RemoveTag m k"
| "perform rt m (CallAddField k v) = AddField rt m k v"
| "perform rt m (CallRemoveField k) = RemoveField m k"
| "perform rt m (CallSetTime t) = SetTime m t"

definition run :: "fpu \<Rightarrow> metric \<Rightarrow> call list \<Rightarrow> metric" where
  "run rt m cs = foldl (perform rt) m cs"

text \<open>The calls that touch neither the name nor a tag.\<close>

fun hash_neutral :: "call \<Rightarrow> bool" where
  "hash_neutral (CallAddField k v) = True"
| "hash_neutral (CallRemoveField k) = True"
| "hash_neutral (CallSetTime t) = True"
| "hash_neutral (CallAddTag k v) = False"
| "hash_neutral (CallRemoveTag k) = False"

subsection \<open>Instances for the examples\<close>

text \<open>
  An instance of the conversion parameters, and a record built with it. The instance
  only stands in for the conversions: it accepts the one text \<open>"1"\<close>.
\<close>

definition example_fpu :: fpu where
  "example_fpu =
     \<lparr>i2f = word_of_int, f32to64 = ucast,
      ParseFloat = (\<lambda>s. if s = ''1'' then Some 1 else None)\<rparr>"

definition example_metric :: metric where
  "example_metric =
     NewMetric example_fpu ''cpu'' [(''host'', ''b''), (''app'', ''a'')]
       [(''bad'', VOther 0), (''x'', VInt 42)] 5 []"


subsection \<open>Texts and the parse\<close>

text \<open>
  Modelled from the spec: the spec calls the text that the normalizer takes a
  base-10 floating-point literal and gives no grammar for it. \<open>base10_literal\<close> is
  the usual one: an optional sign, decimal digits with at most one point among them
  and at least one digit, and an optional exponent, which is \<open>e\<close> or \<open>E\<close>, an
  optional sign and at least one decimal digit.
\<close>

definition is_digit :: "char \<Rightarrow> bool" where
  "is_digit c \<longleftrightarrow> c \<in> set ''0123456789''"

fun strip_sign :: "string \<Rightarrow> string" where
  "strip_sign [] = []"
| "strip_sign (c # s) = (if c = CHR ''+'' \<or> c = CHR ''-'' then s else c # s)"

definition exponent_part :: "string \<Rightarrow> bool" where
  "exponent_part s =
     (case s of
        [] \<Rightarrow> True
      | c # r \<Rightarrow> (c = CHR ''e'' \<or> c = CHR ''E'') \<and> strip_sign r \<noteq> [] \<and>
                 list_all is_digit (strip_sign r))"

definition base10_literal :: "string \<Rightarrow> bool" where
  "base10_literal s =
     (let t = strip_sign s;
          ip = takeWhile is_digit t;
          r = dropWhile is_digit t
      in case r of
           [] \<Rightarrow> ip \<noteq> []
         | c # r' \<Rightarrow>
             if c = CHR ''.''
             then (ip \<noteq> [] \<or> takeWhile is_digit r' \<noteq> []) \<and>
                  exponent_part (dropWhile is_digit r')
             else ip \<noteq> [] \<and> exponent_part r)"

text \<open>
  \<open>strconv.ParseFloat\<close> of the Go standard library takes more than that. By its
  documentation it accepts decimal and hexadecimal floating-point numbers in the
  syntax of Go's floating-point literals, and the texts \<open>NaN\<close>, \<open>Inf\<close> and
  \<open>Infinity\<close>, the last two with an optional sign, in any letter case; for a
  well-formed text it returns the nearest \<open>float64\<close> with a nil error.
  \<open>strconv_ParseFloat\<close> is \<open>strconv.ParseFloat(s, 64)\<close> on five texts, each with the
  bits of the \<open>float64\<close> returned: \<open>"1.5"\<close> is 1.5, \<open>"-2e3"\<close> is -2000, the
  hexadecimal \<open>"0x1p-2"\<close> is 0.25, \<open>"Inf"\<close> and \<open>"+Infinity"\<close> are the positive
  infinity. On every other text it is left at \<open>None\<close>, and no statement below
  evaluates it there. \<open>strconv_fpu\<close> is the instance with this parse; the two
  conversions of numbers are those of \<open>example_fpu\<close> and no text reaches them.
\<close>

definition strconv_ParseFloat :: "string \<Rightarrow> float64 option" where
  "strconv_ParseFloat s =
     (if s = ''1.5'' then Some 0x3FF8000000000000
      else if s = ''-2e3'' then Some 0xC09F400000000000
      else if s = ''0x1p-2'' then Some 0x3FD0000000000000
      else if s = ''Inf'' then Some 0x7FF0000000000000
      else if s = ''+Infinity'' then Some 0x7FF0000000000000
      else None)"

definition strconv_fpu :: fpu where
  "strconv_fpu = example_fpu\<lparr>ParseFloat := strconv_ParseFloat\<rparr>"
section \<open>The record in the store\<close>

text \<open>
  \<open>m.tags\<close> and \<open>m.fields\<close> are slices of pointers: two records can share a
  \<open>telegraf.Tag\<close> through a pointer, or the array behind a slice. Where a property
  is about what two records share, the structs and the arrays are kept in a store.
  An address is an index into the store; \<open>nil\<close> is \<open>None\<close>. A new struct or array
  takes the next free address, so it is apart from everything allocated before it.
  Every slice of the code begins at the first place of its array, so a slice is the
  address of its array and its length, and its capacity is the length of the array.
\<close>

type_synonym addr = nat
type_synonym ptr = "addr option"
type_synonym arrays = "ptr list list"

record slice =
  array :: ptr
  len :: nat

record store =
  tag_cells :: "Tag list"
  tag_arrays :: arrays
  field_cells :: "Field list"
  field_arrays :: arrays

text \<open>
  The struct \<open>metric\<close> with its two slices. A method takes the struct it is called on
  and returns it as the call leaves it; \<open>None\<close> is a run-time panic.
\<close>

record metric_st =
  st_name :: string
  st_tags :: slice
  st_fields :: slice
  st_tm :: Time
  st_tp :: ValueType
  st_aggregate :: bool

subsection \<open>The operations of the language on slices and pointers\<close>

text \<open>The elements \<open>s[0]\<close> to \<open>s[len(s)-1]\<close>, as \<open>range s\<close> visits them.\<close>

definition elems :: "arrays \<Rightarrow> slice \<Rightarrow> ptr list" where
  "elems arrs s = (case array s of None \<Rightarrow> [] | Some a \<Rightarrow> take (len s) (arrs ! a))"

text \<open>Reading through a pointer; through \<open>nil\<close> it panics.\<close>

definition load :: "'a list \<Rightarrow> ptr \<Rightarrow> 'a option" where
  "load cells p =
     (case p of None \<Rightarrow> None
      | Some q \<Rightarrow> if q < length cells then Some (cells ! q) else None)"

text \<open>A pointer that can be read through: not nil, and to an allocated struct.\<close>

definition valid_ptr :: "'a list \<Rightarrow> ptr \<Rightarrow> bool" where
  "valid_ptr cells p = (case p of None \<Rightarrow> False | Some q \<Rightarrow> q < length cells)"

text \<open>Writing through a pointer, \<open>*p = x\<close>.\<close>

definition poke :: "'a list \<Rightarrow> ptr \<Rightarrow> 'a \<Rightarrow> 'a list option" where
  "poke cells p x =
     (case p of None \<Rightarrow> None
      | Some q \<Rightarrow> if q < length cells then Some (cells[q := x]) else None)"

text \<open>\<open>&T{...}\<close>: a new struct.\<close>

definition alloc :: "'a list \<Rightarrow> 'a \<Rightarrow> 'a list \<times> ptr" where
  "alloc cells x = (cells @ [x], Some (length cells))"

text \<open>
  \<open>make([]*T, n, c)\<close>: a new array of \<open>c\<close> nil pointers and a slice of its first \<open>n\<close>
  places; \<open>make([]*T, n)\<close> is \<open>make([]*T, n, n)\<close>. The code never asks for \<open>n > c\<close>.
\<close>

definition make_slice :: "arrays \<Rightarrow> nat \<Rightarrow> nat \<Rightarrow> arrays \<times> slice" where
  "make_slice arrs n c =
     (arrs @ [replicate c None], \<lparr>array = Some (length arrs), len = n\<rparr>)"

text \<open>
  \<open>append(s, x)\<close>: in place where the capacity allows, otherwise into a new array
  that holds the elements, \<open>x\<close>, and as many spare places as the run time chooses;
  \<open>grow\<close> is that choice, a parameter.
\<close>

definition append_go :: "(nat \<Rightarrow> nat) \<Rightarrow> arrays \<Rightarrow> slice \<Rightarrow> ptr \<Rightarrow> arrays \<times> slice" where
  "append_go grow arrs s x =
     (case array s of
        Some a \<Rightarrow>
          if len s < length (arrs ! a)
          then (arrs[a := (arrs ! a)[len s := x]], s\<lparr>len := len s + 1\<rparr>)
          else (arrs @ [elems arrs s @ x # replicate (grow (len s)) None],
                \<lparr>array = Some (length arrs), len = len s + 1\<rparr>)
      | None \<Rightarrow>
          (arrs @ [x # replicate (grow 0) None], \<lparr>array = Some (length arrs), len = 1\<rparr>))"

text \<open>\<open>s[i] = x\<close>; an index out of range panics.\<close>

definition index_set :: "arrays \<Rightarrow> slice \<Rightarrow> nat \<Rightarrow> ptr \<Rightarrow> arrays option" where
  "index_set arrs s i x =
     (case array s of
        Some a \<Rightarrow> if i < len s then Some (arrs[a := (arrs ! a)[i := x]]) else None
      | None \<Rightarrow> None)"

text \<open>
  \<open>copy(s[d:], s[r:])\<close>: as many elements as the shorter of the two holds, moved
  within the array as if through a buffer; a bound beyond the length panics.
\<close>

definition copy_go :: "arrays \<Rightarrow> slice \<Rightarrow> nat \<Rightarrow> nat \<Rightarrow> arrays option" where
  "copy_go arrs s d r =
     (if d \<le> len s \<and> r \<le> len s
      then (case array s of
              None \<Rightarrow> Some arrs
            | Some a \<Rightarrow>
                (let n = min (len s - d) (len s - r); xs = arrs ! a
                 in Some (arrs[a := take d xs @ take n (drop r xs) @ drop (d + n) xs])))
      else None)"

text \<open>\<open>s[:len(s)-1]\<close>; on the empty slice the bound is negative and it panics.\<close>

definition drop_last :: "slice \<Rightarrow> slice option" where
  "drop_last s = (if len s = 0 then None else Some (s\<lparr>len := len s - 1\<rparr>))"

subsection \<open>The methods\<close>

text \<open>
  Each loop runs over the elements the slice has when the loop begins, with their
  index. No loop of the code writes to the slice it ranges over and then goes on.
\<close>

fun AddTag_st_loop ::
  "(nat \<Rightarrow> nat) \<Rightarrow> store \<Rightarrow> metric_st \<Rightarrow> string \<Rightarrow> string \<Rightarrow> nat \<Rightarrow> ptr list \<Rightarrow>
     (store \<times> metric_st) option" where
  "AddTag_st_loop grow st m key val i [] =
     (let (cells, p) = alloc (tag_cells st) \<lparr>Key = key, Value = val\<rparr>;
          (arrs, s) = append_go grow (tag_arrays st) (st_tags m) p
      in Some (st\<lparr>tag_cells := cells, tag_arrays := arrs\<rparr>, m\<lparr>st_tags := s\<rparr>))"
| "AddTag_st_loop grow st m key val i (p # rest) =
     (case load (tag_cells st) p of
        None \<Rightarrow> None
      | Some tag \<Rightarrow>
          if key > Key tag then AddTag_st_loop grow st m key val (Suc i) rest
          else if key = Key tag then
            (case poke (tag_cells st) p (tag\<lparr>Value := val\<rparr>) of
               None \<Rightarrow> None
             | Some cells \<Rightarrow> Some (st\<lparr>tag_cells := cells\<rparr>, m))
          else
            (let (arrs, s) = append_go grow (tag_arrays st) (st_tags m) None in
             case copy_go arrs s (Suc i) i of
               None \<Rightarrow> None
             | Some arrs \<Rightarrow>
                 (let (cells, q) = alloc (tag_cells st) \<lparr>Key = key, Value = val\<rparr> in
                  case index_set arrs s i q of
                    None \<Rightarrow> None
                  | Some arrs \<Rightarrow>
                      Some (st\<lparr>tag_cells := cells, tag_arrays := arrs\<rparr>, m\<lparr>st_tags := s\<rparr>))))"

definition AddTag_st ::
  "(nat \<Rightarrow> nat) \<Rightarrow> store \<Rightarrow> metric_st \<Rightarrow> string \<Rightarrow> string \<Rightarrow> (store \<times> metric_st) option" where
  "AddTag_st grow st m key val =
     AddTag_st_loop grow st m key val 0 (elems (tag_arrays st) (st_tags m))"

fun RemoveTag_st_loop ::
  "store \<Rightarrow> metric_st \<Rightarrow> string \<Rightarrow> nat \<Rightarrow> ptr list \<Rightarrow> (store \<times> metric_st) option" where
  "RemoveTag_st_loop st m key i [] = Some (st, m)"
| "RemoveTag_st_loop st m key i (p # rest) =
     (case load (tag_cells st) p of
        None \<Rightarrow> None
      | Some tag \<Rightarrow>
          if Key tag = key then
            (case copy_go (tag_arrays st) (st_tags m) i (Suc i) of
               None \<Rightarrow> None
             | Some arrs \<Rightarrow>
                 (case index_set arrs (st_tags m) (len (st_tags m) - 1) None of
                    None \<Rightarrow> None
                  | Some arrs \<Rightarrow>
                      (case drop_last (st_tags m) of
                         None \<Rightarrow> None
                       | Some s \<Rightarrow> Some (st\<lparr>tag_arrays := arrs\<rparr>, m\<lparr>st_tags := s\<rparr>))))
          else RemoveTag_st_loop st m key (Suc i) rest)"

definition RemoveTag_st :: "store \<Rightarrow> metric_st \<Rightarrow> string \<Rightarrow> (store \<times> metric_st) option" where
  "RemoveTag_st st m key = RemoveTag_st_loop st m key 0 (elems (tag_arrays st) (st_tags m))"

fun AddField_st_loop ::
  "(nat \<Rightarrow> nat) \<Rightarrow> fpu \<Rightarrow> store \<Rightarrow> metric_st \<Rightarrow> string \<Rightarrow> go_value \<Rightarrow> nat \<Rightarrow> ptr list \<Rightarrow>
     (store \<times> metric_st) option" where
  "AddField_st_loop grow rt st m key val i [] =
     (let (cells, p) = alloc (field_cells st) \<lparr>FKey = key, FValue = convertField rt val\<rparr>;
          (arrs, s) = append_go grow (field_arrays st) (st_fields m) p
      in Some (st\<lparr>field_cells := cells, field_arrays := arrs\<rparr>, m\<lparr>st_fields := s\<rparr>))"
| "AddField_st_loop grow rt st m key val i (p # rest) =
     (case load (field_cells st) p of
        None \<Rightarrow> None
      | Some field \<Rightarrow>
          if key = FKey field then
            (let (cells, q) = alloc (field_cells st) \<lparr>FKey = key, FValue = convertField rt val\<rparr> in
             case index_set (field_arrays st) (st_fields m) i q of
               None \<Rightarrow> None
             | Some arrs \<Rightarrow> Some (st\<lparr>field_cells := cells, field_arrays := arrs\<rparr>, m))
          else AddField_st_loop grow rt st m key val (Suc i) rest)"

definition AddField_st ::
  "(nat \<Rightarrow> nat) \<Rightarrow> fpu \<Rightarrow> store \<Rightarrow> metric_st \<Rightarrow> string \<Rightarrow> go_value \<Rightarrow>
     (store \<times> metric_st) option" where
  "AddField_st grow rt st m key val =
     AddField_st_loop grow rt st m key val 0 (elems (field_arrays st) (st_fields m))"

fun RemoveField_st_loop ::
  "store \<Rightarrow> metric_st \<Rightarrow> string \<Rightarrow> nat \<Rightarrow> ptr list \<Rightarrow> (store \<times> metric_st) option" where
  "RemoveField_st_loop st m key i [] = Some (st, m)"
| "RemoveField_st_loop st m key i (p # rest) =
     (case load (field_cells st) p of
        None \<Rightarrow> None
      | Some field \<Rightarrow>
          if FKey field = key then
            (case copy_go (field_arrays st) (st_fields m) i (Suc i) of
               None \<Rightarrow> None
             | Some arrs \<Rightarrow>
                 (case index_set arrs (st_fields m) (len (st_fields m) - 1) None of
                    None \<Rightarrow> None
                  | Some arrs \<Rightarrow>
                      (case drop_last (st_fields m) of
                         None \<Rightarrow> None
                       | Some s \<Rightarrow> Some (st\<lparr>field_arrays := arrs\<rparr>, m\<lparr>st_fields := s\<rparr>))))
          else RemoveField_st_loop st m key (Suc i) rest)"

definition RemoveField_st :: "store \<Rightarrow> metric_st \<Rightarrow> string \<Rightarrow> (store \<times> metric_st) option" where
  "RemoveField_st st m key =
     RemoveField_st_loop st m key 0 (elems (field_arrays st) (st_fields m))"

definition SetTime_st :: "store \<Rightarrow> metric_st \<Rightarrow> Time \<Rightarrow> (store \<times> metric_st) option" where
  "SetTime_st st m t = Some (st, m\<lparr>st_tm := t\<rparr>)"

text \<open>
  \<open>Copy\<close>: a new struct, two new arrays of the lengths of the slices of \<open>m\<close>, and in
  each place a new \<open>Tag\<close> or \<open>Field\<close> with the key and value of the one in \<open>m\<close>.
\<close>

fun Copy_tags_loop :: "store \<Rightarrow> slice \<Rightarrow> nat \<Rightarrow> ptr list \<Rightarrow> store option" where
  "Copy_tags_loop st dst i [] = Some st"
| "Copy_tags_loop st dst i (p # rest) =
     (case load (tag_cells st) p of
        None \<Rightarrow> None
      | Some tag \<Rightarrow>
          (let (cells, q) = alloc (tag_cells st) \<lparr>Key = Key tag, Value = Value tag\<rparr> in
           case index_set (tag_arrays st) dst i q of
             None \<Rightarrow> None
           | Some arrs \<Rightarrow>
               Copy_tags_loop (st\<lparr>tag_cells := cells, tag_arrays := arrs\<rparr>) dst (Suc i) rest))"

fun Copy_fields_loop :: "store \<Rightarrow> slice \<Rightarrow> nat \<Rightarrow> ptr list \<Rightarrow> store option" where
  "Copy_fields_loop st dst i [] = Some st"
| "Copy_fields_loop st dst i (p # rest) =
     (case load (field_cells st) p of
        None \<Rightarrow> None
      | Some field \<Rightarrow>
          (let (cells, q) = alloc (field_cells st) \<lparr>FKey = FKey field, FValue = FValue field\<rparr> in
           case index_set (field_arrays st) dst i q of
             None \<Rightarrow> None
           | Some arrs \<Rightarrow>
               Copy_fields_loop (st\<lparr>field_cells := cells, field_arrays := arrs\<rparr>) dst (Suc i) rest))"

definition Copy_st :: "store \<Rightarrow> metric_st \<Rightarrow> (store \<times> metric_st) option" where
  "Copy_st st m =
     (let n = len (st_tags m);
          k = len (st_fields m);
          (tarrs, ts) = make_slice (tag_arrays st) n n;
          (farrs, fs) = make_slice (field_arrays st) k k;
          m2 = \<lparr>st_name = st_name m, st_tags = ts, st_fields = fs, st_tm = st_tm m,
                st_tp = st_tp m, st_aggregate = st_aggregate m\<rparr>;
          st1 = st\<lparr>tag_arrays := tarrs, field_arrays := farrs\<rparr>
      in case Copy_tags_loop st1 ts 0 (elems (tag_arrays st1) (st_tags m)) of
           None \<Rightarrow> None
         | Some st2 \<Rightarrow>
             (case Copy_fields_loop st2 fs 0 (elems (field_arrays st2) (st_fields m)) of
                None \<Rightarrow> None
              | Some st3 \<Rightarrow> Some (st3, m2)))"

text \<open>
  \<open>NewMetric\<close>. The tags are appended in the order of the map and then sorted in
  place: \<open>sort.Slice\<close> permutes the pointers in the array, comparing the keys they
  point to, and on fewer than two elements compares nothing. As on values, the
  sorting is \<open>sort_key\<close>.
\<close>

fun NewMetric_tags_loop ::
  "(nat \<Rightarrow> nat) \<Rightarrow> store \<Rightarrow> slice \<Rightarrow> (string \<times> string) list \<Rightarrow> store \<times> slice" where
  "NewMetric_tags_loop grow st s [] = (st, s)"
| "NewMetric_tags_loop grow st s (kv # rest) =
     (let (cells, p) = alloc (tag_cells st) \<lparr>Key = fst kv, Value = snd kv\<rparr>;
          (arrs, s') = append_go grow (tag_arrays st) s p
      in NewMetric_tags_loop grow (st\<lparr>tag_cells := cells, tag_arrays := arrs\<rparr>) s' rest)"

definition sort_Slice :: "store \<Rightarrow> slice \<Rightarrow> store option" where
  "sort_Slice st s =
     (case array s of
        None \<Rightarrow> Some st
      | Some a \<Rightarrow>
          if len s \<le> 1 then Some st
          else if list_all (valid_ptr (tag_cells st)) (elems (tag_arrays st) s)
          then Some (st\<lparr>tag_arrays := (tag_arrays st)
                 [a := sort_key (\<lambda>p. Key (tag_cells st ! the p)) (elems (tag_arrays st) s) @
                       drop (len s) (tag_arrays st ! a)]\<rparr>)
          else None)"

fun NewMetric_fields_loop ::
  "(nat \<Rightarrow> nat) \<Rightarrow> fpu \<Rightarrow> store \<Rightarrow> metric_st \<Rightarrow> (string \<times> go_value) list \<Rightarrow>
     (store \<times> metric_st) option" where
  "NewMetric_fields_loop grow rt st m [] = Some (st, m)"
| "NewMetric_fields_loop grow rt st m (kv # rest) =
     (let v = convertField rt (snd kv) in
      if v = VNil then NewMetric_fields_loop grow rt st m rest
      else (case AddField_st grow rt st m (fst kv) v of
              None \<Rightarrow> None
            | Some (st', m') \<Rightarrow> NewMetric_fields_loop grow rt st' m' rest))"

text \<open>The two blocks of \<open>NewMetric\<close>, for the tags and for the fields, and the whole.\<close>

definition NewMetric_st_tags ::
  "(nat \<Rightarrow> nat) \<Rightarrow> store \<Rightarrow> metric_st \<Rightarrow> (string \<times> string) list \<Rightarrow>
     (store \<times> metric_st) option" where
  "NewMetric_st_tags grow st m tagmap =
     (if length tagmap > 0
      then (let (arrs, s) = make_slice (tag_arrays st) 0 (length tagmap);
                (st1, s1) = NewMetric_tags_loop grow (st\<lparr>tag_arrays := arrs\<rparr>) s tagmap
            in case sort_Slice st1 s1 of
                 None \<Rightarrow> None
               | Some st2 \<Rightarrow> Some (st2, m\<lparr>st_tags := s1\<rparr>))
      else Some (st, m))"

definition NewMetric_st_fields ::
  "(nat \<Rightarrow> nat) \<Rightarrow> fpu \<Rightarrow> store \<Rightarrow> metric_st \<Rightarrow> (string \<times> go_value) list \<Rightarrow>
     (store \<times> metric_st) option" where
  "NewMetric_st_fields grow rt st m fieldmap =
     (if length fieldmap > 0
      then (let (arrs, s) = make_slice (field_arrays st) 0 (length fieldmap)
            in NewMetric_fields_loop grow rt (st\<lparr>field_arrays := arrs\<rparr>)
                 (m\<lparr>st_fields := s\<rparr>) fieldmap)
      else Some (st, m))"

definition NewMetric_st ::
  "(nat \<Rightarrow> nat) \<Rightarrow> fpu \<Rightarrow> store \<Rightarrow> string \<Rightarrow> (string \<times> string) list \<Rightarrow>
     (string \<times> go_value) list \<Rightarrow> Time \<Rightarrow> ValueType list \<Rightarrow> (store \<times> metric_st) option" where
  "NewMetric_st grow rt st nm tagmap fieldmap t tps =
     (let vtype = (case tps of tp0 # _ \<Rightarrow> tp0 | [] \<Rightarrow> Untyped);
          m = \<lparr>st_name = nm, st_tags = \<lparr>array = None, len = 0\<rparr>,
               st_fields = \<lparr>array = None, len = 0\<rparr>, st_tm = t, st_tp = vtype,
               st_aggregate = False\<rparr>
      in case NewMetric_st_tags grow st m tagmap of
           None \<Rightarrow> None
         | Some (st1, m1) \<Rightarrow> NewMetric_st_fields grow rt st1 m1 fieldmap)"

text \<open>A call and a run of calls, on a record in the store.\<close>

fun perform_st ::
  "(nat \<Rightarrow> nat) \<Rightarrow> fpu \<Rightarrow> store \<times> metric_st \<Rightarrow> call \<Rightarrow> (store \<times> metric_st) option" where
  "perform_st grow rt (st, m) (CallAddTag k v) = AddTag_st grow st m k v"
| "perform_st grow rt (st, m) (CallRemoveTag k) = RemoveTag_st st m k"
| "perform_st grow rt (st, m) (CallAddField k v) = AddField_st grow rt st m k v"
| "perform_st grow rt (st, m) (CallRemoveField k) = RemoveField_st st m k"
| "perform_st grow rt (st, m) (CallSetTime t) = SetTime_st st m t"

fun run_st ::
  "(nat \<Rightarrow> nat) \<Rightarrow> fpu \<Rightarrow> store \<times> metric_st \<Rightarrow> call list \<Rightarrow> (store \<times> metric_st) option" where
  "run_st grow rt sm [] = Some sm"
| "run_st grow rt sm (c # cs) =
     (case perform_st grow rt sm c of None \<Rightarrow> None | Some sm' \<Rightarrow> run_st grow rt sm' cs)"

text \<open>
  \<open>TagList\<close> and \<open>FieldList\<close> return \<open>m.tags\<close> and \<open>m.fields\<close> themselves: the caller
  holds the pointers of the record and can write through each of them, \<open>*p = x\<close>.
\<close>

definition TagList_st :: "store \<Rightarrow> metric_st \<Rightarrow> ptr list" where
  "TagList_st st m = elems (tag_arrays st) (st_tags m)"

definition FieldList_st :: "store \<Rightarrow> metric_st \<Rightarrow> ptr list" where
  "FieldList_st st m = elems (field_arrays st) (st_fields m)"

definition poke_tag :: "store \<Rightarrow> ptr \<Rightarrow> Tag \<Rightarrow> store option" where
  "poke_tag st p x =
     (case poke (tag_cells st) p x of
        None \<Rightarrow> None
      | Some cells \<Rightarrow> Some (st\<lparr>tag_cells := cells\<rparr>))"

definition poke_field :: "store \<Rightarrow> ptr \<Rightarrow> Field \<Rightarrow> store option" where
  "poke_field st p x =
     (case poke (field_cells st) p x of
        None \<Rightarrow> None
      | Some cells \<Rightarrow> Some (st\<lparr>field_cells := cells\<rparr>))"

text \<open>
  Calls on two records in one store, in any order: each call is marked with the record
  it is made on, \<open>True\<close> for the second. \<open>calls_on\<close> picks the calls made on one of them.
\<close>

fun run_both ::
  "(nat \<Rightarrow> nat) \<Rightarrow> fpu \<Rightarrow> store \<times> metric_st \<times> metric_st \<Rightarrow> (bool \<times> call) list \<Rightarrow>
     (store \<times> metric_st \<times> metric_st) option" where
  "run_both grow rt (st, m1, m2) [] = Some (st, m1, m2)"
| "run_both grow rt (st, m1, m2) ((second, c) # cs) =
     (if second
      then (case perform_st grow rt (st, m2) c of
              None \<Rightarrow> None
            | Some (st', m2') \<Rightarrow> run_both grow rt (st', m1, m2') cs)
      else (case perform_st grow rt (st, m1) c of
              None \<Rightarrow> None
            | Some (st', m1') \<Rightarrow> run_both grow rt (st', m1', m2) cs))"

definition calls_on :: "bool \<Rightarrow> (bool \<times> call) list \<Rightarrow> call list" where
  "calls_on second cs = map snd (filter (\<lambda>bc. fst bc = second) cs)"

subsection \<open>What a record in the store stands for\<close>

text \<open>
  A slice is well formed when its array is allocated and at least as long as the
  slice, and its elements are pointers to allocated structs, no two the same. The
  records the code builds are so. The view of a record is the record on values that
  it stands for: each slice read through its pointers.
\<close>

definition in_bounds :: "arrays \<Rightarrow> slice \<Rightarrow> bool" where
  "in_bounds arrs s =
     (case array s of
        None \<Rightarrow> len s = 0
      | Some a \<Rightarrow> a < length arrs \<and> len s \<le> length (arrs ! a))"

definition wf_slice :: "'a list \<Rightarrow> arrays \<Rightarrow> slice \<Rightarrow> bool" where
  "wf_slice cells arrs s \<longleftrightarrow>
     in_bounds arrs s \<and>
     list_all (valid_ptr cells) (elems arrs s) \<and>
     distinct (elems arrs s)"

definition contents :: "'a list \<Rightarrow> arrays \<Rightarrow> slice \<Rightarrow> 'a list" where
  "contents cells arrs s = map (\<lambda>p. cells ! the p) (elems arrs s)"

definition wf_metric :: "store \<Rightarrow> metric_st \<Rightarrow> bool" where
  "wf_metric st m \<longleftrightarrow>
     wf_slice (tag_cells st) (tag_arrays st) (st_tags m) \<and>
     wf_slice (field_cells st) (field_arrays st) (st_fields m)"

definition view :: "store \<Rightarrow> metric_st \<Rightarrow> metric" where
  "view st m =
     \<lparr>name = st_name m,
      tags = contents (tag_cells st) (tag_arrays st) (st_tags m),
      fields_m = contents (field_cells st) (field_arrays st) (st_fields m),
      tm = st_tm m, tp = st_tp m, aggregate = st_aggregate m\<rparr>"

text \<open>Two slices are apart when they have neither their array nor an element in common.\<close>

definition apart_slices :: "arrays \<Rightarrow> slice \<Rightarrow> slice \<Rightarrow> bool" where
  "apart_slices arrs s1 s2 \<longleftrightarrow>
     (array s1 \<noteq> array s2 \<or> array s1 = None) \<and>
     set (elems arrs s1) \<inter> set (elems arrs s2) = {}"

definition apart :: "store \<Rightarrow> metric_st \<Rightarrow> metric_st \<Rightarrow> bool" where
  "apart st m1 m2 \<longleftrightarrow>
     apart_slices (tag_arrays st) (st_tags m1) (st_tags m2) \<and>
     apart_slices (field_arrays st) (st_fields m1) (st_fields m2)"

text \<open>
  The footprint of a call on a slice. \<open>grown a arrs arrs'\<close>: no array is lost, and
  none but the one at \<open>a\<close> is written. \<open>footprint\<close>: the call has written no array
  but that of the slice and no struct but those the slice points to; the array and
  the elements the slice has afterwards are those it had or new ones.
\<close>

definition grown :: "ptr \<Rightarrow> arrays \<Rightarrow> arrays \<Rightarrow> bool" where
  "grown a arrs arrs' \<longleftrightarrow>
     length arrs \<le> length arrs' \<and>
     (\<forall>b<length arrs. a \<noteq> Some b \<longrightarrow> arrs' ! b = arrs ! b)"

definition footprint ::
  "'a list \<Rightarrow> arrays \<Rightarrow> slice \<Rightarrow> 'a list \<Rightarrow> arrays \<Rightarrow> slice \<Rightarrow> bool" where
  "footprint cells arrs s cells' arrs' s' \<longleftrightarrow>
     grown (array s) arrs arrs' \<and>
     length cells \<le> length cells' \<and>
     (\<forall>q<length cells. Some q \<notin> set (elems arrs s) \<longrightarrow> cells' ! q = cells ! q) \<and>
     (array s' = array s \<or> (\<exists>b\<ge>length arrs. array s' = Some b)) \<and>
     (\<forall>p\<in>set (elems arrs' s'). p \<in> set (elems arrs s) \<or> (\<exists>q\<ge>length cells. p = Some q))"

text \<open>A store with one record in it, for the examples.\<close>

definition example_store :: store where
  "example_store =
     \<lparr>tag_cells = [\<lparr>Key = ''host'', Value = ''b''\<rparr>, \<lparr>Key = ''app'', Value = ''a''\<rparr>],
      tag_arrays = [[Some 1, Some 0, None]],
      field_cells = [\<lparr>FKey = ''x'', FValue = VFloat64 42\<rparr>],
      field_arrays = [[Some 0]]\<rparr>"

definition example_metric_st :: metric_st where
  "example_metric_st =
     \<lparr>st_name = ''cpu'', st_tags = \<lparr>array = Some 0, len = 2\<rparr>,
      st_fields = \<lparr>array = Some 0, len = 1\<rparr>, st_tm = 5, st_tp = Untyped,
      st_aggregate = False\<rparr>"

section \<open>Properties of the record on values\<close>

subsection \<open>The identity hash\<close>

lemma Write_append: "Write h (xs @ ys) = Write (Write h xs) ys"
  by (induction xs arbitrary: h) auto

lemma Write_foldl: "Write h bs = foldl (\<lambda>acc b. (acc XOR ucast b) * 0x100000001b3) h bs"
  by (induction bs arbitrary: h) (auto simp: prime64_def)

lemma bytes_LF: "bytes LF = [0x0A]"
  by (simp add: bytes_def LF_def)

lemma HashID_loop_concat:
  "HashID_loop h ts =
     Write h (concat (map (\<lambda>t. bytes (Key t) @ [0x0A] @ bytes (Value t) @ [0x0A]) ts))"
  by (induction ts arbitrary: h) (simp_all add: Write_append bytes_LF Let_def)

text \<open>The sums of the empty text, of \<open>"a"\<close> and of \<open>"foobar"\<close> are the published ones.\<close>

lemma fnv1a_64_published:
  "fnv1a_64 [] = 0xcbf29ce484222325"
  "fnv1a_64 (bytes ''a'') = 0xaf63dc4c8601ec8c"
  "fnv1a_64 (bytes ''foobar'') = 0x85944171f73967e8"
  by (simp_all add: fnv1a_64_def bytes_def)

text \<open>
  C1: for every record, \<open>HashID\<close> is the FNV-1a 64-bit sum, from the standard offset
  basis and with the standard prime, of the bytes of the name and a line feed followed,
  for each tag in stored order, by the bytes of the key, a line feed, the bytes of the
  value and a line feed; it returns that accumulator as it is.
\<close>

theorem HashID_is_fnv1a_64: "HashID m = fnv1a_64 (hash_input m)"
proof -
  have "HashID m = Write 0xcbf29ce484222325 (hash_input m)"
    by (simp add: HashID_def hash_input_def HashID_loop_concat Write_append bytes_LF Let_def
        Sum64_def New64a_def offset64_def)
  then show ?thesis by (simp add: fnv1a_64_def Write_foldl)
qed

lemma HashID_cong: "name m1 = name m2 \<Longrightarrow> tags m1 = tags m2 \<Longrightarrow> HashID m1 = HashID m2"
  by (simp add: HashID_def)

subsection \<open>What construction leaves in the record\<close>

lemma foldl_NewMetric_field_frame:
  "name (foldl (NewMetric_field rt) m fs) = name m"
  "tags (foldl (NewMetric_field rt) m fs) = tags m"
  "tp (foldl (NewMetric_field rt) m fs) = tp m"
  by (induction fs arbitrary: m) (auto simp: NewMetric_field_def AddField_def Let_def)

lemma name_NewMetric: "name (NewMetric rt nm tagmap fieldmap t tps) = nm"
  by (simp add: NewMetric_def Let_def foldl_NewMetric_field_frame)

lemma tags_NewMetric:
  "tags (NewMetric rt nm tagmap fieldmap t tps) =
     sort_key Key (map (\<lambda>(k, v). \<lparr>Key = k, Value = v\<rparr>) tagmap)"
  by (cases tagmap) (simp_all add: NewMetric_def Let_def foldl_NewMetric_field_frame)

text \<open>
  C10: without a value kind \<open>NewMetric\<close> gives a record whose \<open>Type\<close> is \<open>Untyped\<close>;
  with one or more it is the first of them.
\<close>

theorem NewMetric_value_kind:
  "Type (NewMetric rt nm tagmap fieldmap t []) = Untyped \<and>
   Type (NewMetric rt nm tagmap fieldmap t (k # ks)) = k"
  by (simp add: NewMetric_def Type_def Let_def foldl_NewMetric_field_frame)

text \<open>
  \<open>sort.Slice\<close> promises a sorted permutation and no stability. Where the keys are
  pairwise distinct there is one sorted permutation, that of \<open>sort_key\<close>.
\<close>

lemma filter_key_single:
  "distinct (map f xs) \<Longrightarrow> k \<in> set xs \<Longrightarrow> filter (\<lambda>x. f k = f x) xs = [k]"
proof (induction xs)
  case Nil
  then show ?case by simp
next
  case (Cons a xs)
  show ?case
  proof (cases "k = a")
    case True
    then have "\<forall>x\<in>set xs. f k \<noteq> f x" using Cons.prems(1) by auto
    then have "filter (\<lambda>x. f k = f x) xs = []" by (simp add: filter_empty_conv)
    with True show ?thesis by simp
  next
    case False
    then have "k \<in> set xs" using Cons.prems(2) by simp
    moreover from this have "f k \<noteq> f a" using Cons.prems(1) by (auto simp: image_iff)
    ultimately show ?thesis using Cons by simp
  qed
qed

lemma sort_Slice_unique:
  assumes "distinct (map Key xs)" "mset ys = mset xs" "sorted (map Key ys)"
  shows "ys = sort_key Key xs"
proof (rule properties_for_sort_key [symmetric])
  show "mset ys = mset xs" by fact
  show "sorted (map Key ys)" by fact
  fix k assume k: "k \<in> set ys"
  have "mset (map Key ys) = mset (map Key xs)" using assms(2) by simp
  then have dy: "distinct (map Key ys)" using assms(1) by (metis mset_eq_imp_distinct_iff)
  have "set ys = set xs" using assms(2) by (rule mset_eq_setD)
  then have "k \<in> set xs" using k by simp
  then have "filter (\<lambda>x. Key k = Key x) xs = [k]"
    using assms(1) by (rule filter_key_single [rotated])
  moreover have "filter (\<lambda>x. Key k = Key x) ys = [k]" using dy k by (rule filter_key_single)
  ultimately show "filter (\<lambda>x. Key k = Key x) ys = filter (\<lambda>x. Key k = Key x) xs" by simp
qed

lemma sort_key_strict:
  assumes "distinct (map Key xs)"
  shows "sorted_wrt (<) (map Key (sort_key Key xs))"
proof -
  have "mset (map Key (sort_key Key xs)) = mset (map Key xs)" by simp
  then have "distinct (map Key (sort_key Key xs)) \<longleftrightarrow> distinct (map Key xs)"
    by (rule mset_eq_imp_distinct_iff)
  then have "distinct (map Key (sort_key Key xs))" using assms by simp
  moreover have "sorted (map Key (sort_key Key xs))" by (rule sorted_sort_key)
  ultimately show ?thesis by (simp add: strict_sorted_iff)
qed

lemma NewMetric_tags_sorted:
  assumes "distinct (map fst tagmap)"
  shows "sorted_wrt (<) (map Key (tags (NewMetric rt nm tagmap fieldmap t tps)))"
proof -
  have "Key \<circ> (\<lambda>(k, v). \<lparr>Key = k, Value = v\<rparr>) = fst"
    by (auto simp: fun_eq_iff)
  then have "distinct (map Key (map (\<lambda>(k, v). \<lparr>Key = k, Value = v\<rparr>) tagmap))"
    using assms by simp
  then show ?thesis unfolding tags_NewMetric by (rule sort_key_strict)
qed

subsection \<open>The tags stay sorted\<close>

lemma Key_set_AddTag_loop: "Key ` set (AddTag_loop key val ts) = insert key (Key ` set ts)"
  by (induction ts) auto

lemma AddTag_loop_sorted:
  "sorted_wrt (<) (map Key ts) \<Longrightarrow> sorted_wrt (<) (map Key (AddTag_loop key val ts))"
proof (induction ts)
  case Nil
  then show ?case by simp
next
  case (Cons a ts)
  have "Key a < k" if "k \<in> Key ` set (AddTag_loop key val ts)" "Key a < key" for k
    using that Cons.prems by (auto simp: Key_set_AddTag_loop)
  with Cons show ?case by auto
qed

lemma AddTag_loop_present:
  "sorted_wrt (<) (map Key ts) \<Longrightarrow> key \<in> Key ` set ts \<Longrightarrow>
   AddTag_loop key val ts = map (\<lambda>t. if Key t = key then t\<lparr>Value := val\<rparr> else t) ts"
proof (induction ts)
  case Nil
  then show ?case by simp
next
  case (Cons a ts)
  show ?case
  proof (cases "key = Key a")
    case True
    then have "\<forall>t\<in>set ts. Key t \<noteq> key" using Cons.prems(1) by auto
    then have "map (\<lambda>t. if Key t = key then t\<lparr>Value := val\<rparr> else t) ts = ts"
      by (simp add: map_idI)
    with True show ?thesis by simp
  next
    case False
    then have "key \<in> Key ` set ts" using Cons.prems(2) by auto
    moreover have "Key a < key" using Cons.prems(1) calculation by auto
    ultimately show ?thesis using Cons False by auto
  qed
qed

lemma AddTag_loop_absent:
  "sorted_wrt (<) (map Key ts) \<Longrightarrow> key \<notin> Key ` set ts \<Longrightarrow>
   AddTag_loop key val ts =
     filter (\<lambda>t. Key t < key) ts @ \<lparr>Key = key, Value = val\<rparr> # filter (\<lambda>t. key < Key t) ts"
proof (induction ts)
  case Nil
  then show ?case by simp
next
  case (Cons a ts)
  show ?case
  proof (cases "Key a < key")
    case True
    then show ?thesis using Cons by auto
  next
    case False
    then have lt: "key < Key a" using Cons.prems(2) by auto
    then have "\<forall>t\<in>set ts. key < Key t" using Cons.prems(1) by auto
    then have "filter (\<lambda>t. Key t < key) ts = []" "filter (\<lambda>t. key < Key t) ts = ts"
      by (auto simp: filter_empty_conv)
    then show ?thesis using lt False by auto
  qed
qed

lemma run_AddTags_sorted:
  "sorted_wrt (<) (map Key (tags m)) \<Longrightarrow>
   sorted_wrt (<) (map Key (tags (run rt m (map (\<lambda>(k, v). CallAddTag k v) kvs))))"
  unfolding run_def
  by (induction kvs arbitrary: m) (auto simp: AddTag_def AddTag_loop_sorted)

text \<open>
  C2: take a record made by \<open>NewMetric\<close> from a map (its keys are distinct) and any
  sequence of \<open>AddTag\<close> calls after it. The tags are then sorted ascending by key with
  no key twice, and they are so again after one more \<open>AddTag\<close>, which changes nothing
  but the tags: where the key is there already the entry keeps its place and takes the
  new value, otherwise the new entry stands between the smaller and the greater keys.
\<close>

theorem AddTag_keeps_tags_sorted_and_unique:
  assumes "distinct (map fst tagmap)"
    and "m = run rt (NewMetric rt nm tagmap fieldmap t tps) (map (\<lambda>(k, v). CallAddTag k v) kvs)"
  shows "sorted (map Key (tags m)) \<and> distinct (map Key (tags m)) \<and>
         sorted (map Key (tags (AddTag m key val))) \<and>
         distinct (map Key (tags (AddTag m key val))) \<and>
         AddTag m key val = m\<lparr>tags :=
           (if key \<in> Key ` set (tags m)
            then map (\<lambda>t. if Key t = key then t\<lparr>Value := val\<rparr> else t) (tags m)
            else filter (\<lambda>t. Key t < key) (tags m) @ \<lparr>Key = key, Value = val\<rparr> #
                 filter (\<lambda>t. key < Key t) (tags m))\<rparr>"
proof -
  have s: "sorted_wrt (<) (map Key (tags m))"
    using assms by (simp add: run_AddTags_sorted NewMetric_tags_sorted)
  then have s': "sorted_wrt (<) (map Key (tags (AddTag m key val)))"
    by (simp add: AddTag_def AddTag_loop_sorted)
  have "AddTag_loop key val (tags m) = (if key \<in> Key ` set (tags m)
            then map (\<lambda>t. if Key t = key then t\<lparr>Value := val\<rparr> else t) (tags m)
            else filter (\<lambda>t. Key t < key) (tags m) @ \<lparr>Key = key, Value = val\<rparr> #
                 filter (\<lambda>t. key < Key t) (tags m))"
    using s by (simp add: AddTag_loop_present AddTag_loop_absent)
  then show ?thesis using s s' by (simp add: strict_sorted_iff AddTag_def)
qed

theorem AddTag_keeps_tags_sorted_and_unique_witness:
  "distinct (map fst [(''host'', ''b''), (''app'', ''a'')]) \<and>
   tags (run example_fpu
           (NewMetric example_fpu ''cpu'' [(''host'', ''b''), (''app'', ''a'')] [] 5 [])
           (map (\<lambda>(k, v). CallAddTag k v) [(''zone'', ''z''), (''app'', ''c'')])) =
     [\<lparr>Key = ''app'', Value = ''c''\<rparr>, \<lparr>Key = ''host'', Value = ''b''\<rparr>,
      \<lparr>Key = ''zone'', Value = ''z''\<rparr>] \<and>
   sorted (map Key (tags (run example_fpu
           (NewMetric example_fpu ''cpu'' [(''host'', ''b''), (''app'', ''a'')] [] 5 [])
           (map (\<lambda>(k, v). CallAddTag k v) [(''zone'', ''z''), (''app'', ''c'')])))) \<and>
   tags (AddTag (run example_fpu
           (NewMetric example_fpu ''cpu'' [(''host'', ''b''), (''app'', ''a'')] [] 5 [])
           (map (\<lambda>(k, v). CallAddTag k v) [(''zone'', ''z''), (''app'', ''c'')])) ''env'' ''p'') =
     [\<lparr>Key = ''app'', Value = ''c''\<rparr>, \<lparr>Key = ''env'', Value = ''p''\<rparr>,
      \<lparr>Key = ''host'', Value = ''b''\<rparr>, \<lparr>Key = ''zone'', Value = ''z''\<rparr>]"
  using AddTag_keeps_tags_sorted_and_unique
    [where tagmap = "[(''host'', ''b''), (''app'', ''a'')]" and rt = example_fpu
       and nm = "''cpu''" and fieldmap = "[]" and t = 5 and tps = "[]"
       and kvs = "[(''zone'', ''z''), (''app'', ''c'')]" and key = "''env''" and val = "''p''",
     OF _ refl]
  by (simp add: run_def NewMetric_def AddTag_def Let_def)

subsection \<open>Removing an entry\<close>

lemma RemoveTag_loop_absent: "key \<notin> Key ` set ts \<Longrightarrow> RemoveTag_loop key ts = ts"
  by (induction ts) auto

lemma RemoveTag_loop_present:
  "key \<in> Key ` set ts \<Longrightarrow>
   \<exists>xs t ys. ts = xs @ t # ys \<and> Key t = key \<and> key \<notin> Key ` set xs \<and>
     RemoveTag_loop key ts = xs @ ys"
proof (induction ts)
  case Nil
  then show ?case by simp
next
  case (Cons a ts)
  show ?case
  proof (cases "Key a = key")
    case True
    then have "a # ts = [] @ a # ts \<and> Key a = key \<and> key \<notin> Key ` set [] \<and>
               RemoveTag_loop key (a # ts) = [] @ ts" by simp
    then show ?thesis by blast
  next
    case False
    then have "key \<in> Key ` set ts" using Cons.prems by auto
    then obtain xs t ys where h: "ts = xs @ t # ys" "Key t = key" "key \<notin> Key ` set xs"
      "RemoveTag_loop key ts = xs @ ys" using Cons.IH by blast
    then have "a # ts = (a # xs) @ t # ys \<and> Key t = key \<and> key \<notin> Key ` set (a # xs) \<and>
               RemoveTag_loop key (a # ts) = (a # xs) @ ys" using False by auto
    then show ?thesis by blast
  qed
qed

lemma RemoveField_loop_absent: "key \<notin> FKey ` set fs \<Longrightarrow> RemoveField_loop key fs = fs"
  by (induction fs) auto

lemma RemoveField_loop_present:
  "key \<in> FKey ` set fs \<Longrightarrow>
   \<exists>xs f ys. fs = xs @ f # ys \<and> FKey f = key \<and> key \<notin> FKey ` set xs \<and>
     RemoveField_loop key fs = xs @ ys"
proof (induction fs)
  case Nil
  then show ?case by simp
next
  case (Cons a fs)
  show ?case
  proof (cases "FKey a = key")
    case True
    then have "a # fs = [] @ a # fs \<and> FKey a = key \<and> key \<notin> FKey ` set [] \<and>
               RemoveField_loop key (a # fs) = [] @ fs" by simp
    then show ?thesis by blast
  next
    case False
    then have "key \<in> FKey ` set fs" using Cons.prems by auto
    then obtain xs f ys where h: "fs = xs @ f # ys" "FKey f = key" "key \<notin> FKey ` set xs"
      "RemoveField_loop key fs = xs @ ys" using Cons.IH by blast
    then have "a # fs = (a # xs) @ f # ys \<and> FKey f = key \<and> key \<notin> FKey ` set (a # xs) \<and>
               RemoveField_loop key (a # fs) = (a # xs) @ ys" using False by auto
    then show ?thesis by blast
  qed
qed

text \<open>
  C8: where the key is among the tags, \<open>RemoveTag\<close> takes out the first entry with it,
  one entry, and leaves the entries before and after it as they were and in their
  order; where it is not, the record is unchanged. \<open>RemoveField\<close> does the same on the
  fields. Neither changes anything else in the record.
\<close>

theorem Remove_takes_out_one_entry:
  "(if key \<in> Key ` set (tags m)
    then \<exists>xs t ys. tags m = xs @ t # ys \<and> Key t = key \<and> key \<notin> Key ` set xs \<and>
           RemoveTag m key = m\<lparr>tags := xs @ ys\<rparr>
    else RemoveTag m key = m) \<and>
   (if key \<in> FKey ` set (fields_m m)
    then \<exists>xs f ys. fields_m m = xs @ f # ys \<and> FKey f = key \<and> key \<notin> FKey ` set xs \<and>
           RemoveField m key = m\<lparr>fields_m := xs @ ys\<rparr>
    else RemoveField m key = m)"
proof -
  have t: "if key \<in> Key ` set (tags m)
    then \<exists>xs t ys. tags m = xs @ t # ys \<and> Key t = key \<and> key \<notin> Key ` set xs \<and>
           RemoveTag m key = m\<lparr>tags := xs @ ys\<rparr>
    else RemoveTag m key = m"
  proof (cases "key \<in> Key ` set (tags m)")
    case True
    from RemoveTag_loop_present [OF this] show ?thesis
      unfolding RemoveTag_def using True by fastforce
  next
    case False
    then show ?thesis by (simp add: RemoveTag_def RemoveTag_loop_absent)
  qed
  have f: "if key \<in> FKey ` set (fields_m m)
    then \<exists>xs f ys. fields_m m = xs @ f # ys \<and> FKey f = key \<and> key \<notin> FKey ` set xs \<and>
           RemoveField m key = m\<lparr>fields_m := xs @ ys\<rparr>
    else RemoveField m key = m"
  proof (cases "key \<in> FKey ` set (fields_m m)")
    case True
    from RemoveField_loop_present [OF this] show ?thesis
      unfolding RemoveField_def using True by fastforce
  next
    case False
    then show ?thesis by (simp add: RemoveField_def RemoveField_loop_absent)
  qed
  from t f show ?thesis by (rule conjI)
qed

subsection \<open>The field normalizer\<close>

lemma atof_cases: "atof rt s = VNil \<or> (\<exists>f. atof rt s = VFloat64 f)"
  by (simp add: atof_def split: option.splits)

lemma btof_cases: "\<exists>f. btof rt b = VFloat64 f"
  by (simp add: btof_def)

lemma convertField_cases: "convertField rt v = VNil \<or> (\<exists>f. convertField rt v = VFloat64 f)"
  using atof_cases [of rt] btof_cases [of rt]
  by (cases v) (auto split: option.splits)

lemma convertField_idem: "convertField rt (convertField rt v) = convertField rt v"
  using convertField_cases [of rt v] by auto

text \<open>
  The recognizer of base-10 literals on some texts. The hexadecimal \<open>0x1p-2\<close>, the
  names of the infinity and of the not-a-number, and a text with an underscore are
  none.
\<close>

lemma base10_literal_examples:
  "base10_literal ''1.5'' \<and> base10_literal ''-2e3'' \<and> base10_literal ''.5E+10'' \<and>
   base10_literal ''7.'' \<and> base10_literal ''42'' \<and>
   \<not> base10_literal [] \<and> \<not> base10_literal ''.'' \<and> \<not> base10_literal ''1e'' \<and>
   \<not> base10_literal ''1.5x'' \<and> \<not> base10_literal ''abc'' \<and>
   \<not> base10_literal ''NaN'' \<and> \<not> base10_literal ''+Infinity'' \<and>
   \<not> base10_literal ''1_000''"
  by code_simp

text \<open>
  The hexadecimal text \<open>0x1p-2\<close> and the text \<open>Inf\<close> are not base-10 literals, and
  the normalizer takes both, as a string and as a byte sequence: it returns the
  \<open>float64\<close> 0.25 for the first and the positive infinity for the second, not nil.
  So it is not so that no text but a base-10 literal is accepted.
\<close>

theorem text_other_than_base10_is_accepted:
  "\<not> base10_literal ''0x1p-2'' \<and>
   convertField strconv_fpu (VString ''0x1p-2'') = VFloat64 0x3FD0000000000000 \<and>
   convertField strconv_fpu (VBytes ''0x1p-2'') = VFloat64 0x3FD0000000000000 \<and>
   \<not> base10_literal ''Inf'' \<and>
   convertField strconv_fpu (VString ''Inf'') = VFloat64 0x7FF0000000000000 \<and>
   convertField strconv_fpu (VBytes ''Inf'') = VFloat64 0x7FF0000000000000 \<and>
   VFloat64 0x3FD0000000000000 \<noteq> VNil \<and> VFloat64 0x7FF0000000000000 \<noteq> VNil"
  by code_simp

text \<open>
  C7, as the code has it: on a string and on a byte sequence the normalizer returns
  what \<open>strconv.ParseFloat\<close> returns for the text, as a \<open>float64\<close>, and returns nil
  exactly when \<open>ParseFloat\<close> reports an error. The texts it accepts are those that
  \<open>ParseFloat\<close> accepts, whatever their form, and no others.
\<close>

theorem text_is_normalized_by_ParseFloat:
  "convertField rt (VString s) = (case ParseFloat rt s of None \<Rightarrow> VNil | Some f \<Rightarrow> VFloat64 f) \<and>
   convertField rt (VBytes s) = (case ParseFloat rt s of None \<Rightarrow> VNil | Some f \<Rightarrow> VFloat64 f) \<and>
   (convertField rt (VString s) = VNil \<longleftrightarrow> ParseFloat rt s = None) \<and>
   (convertField rt (VBytes s) = VNil \<longleftrightarrow> ParseFloat rt s = None)"
  by (simp add: atof_def split: option.splits)

subsection \<open>Fields at construction and at AddField\<close>

lemma HasField_loop_iff: "HasField_loop key fs \<longleftrightarrow> key \<in> FKey ` set fs"
  by (induction fs) auto

lemma FKey_set_AddField_loop:
  "FKey ` set (AddField_loop rt key val fs) = insert key (FKey ` set fs)"
  by (induction fs) auto

lemma GetField_AddField_loop:
  "GetField_loop key (AddField_loop rt key val fs) = (convertField rt val, True)"
  by (induction fs) auto

lemma AddField_loop_absent:
  "key \<notin> FKey ` set fs \<Longrightarrow>
   AddField_loop rt key val fs = fs @ [\<lparr>FKey = key, FValue = convertField rt val\<rparr>]"
  by (induction fs) auto

lemma AddField_loop_present:
  "key \<in> FKey ` set fs \<Longrightarrow>
   \<exists>xs old ys. fs = xs @ old # ys \<and> FKey old = key \<and> key \<notin> FKey ` set xs \<and>
     AddField_loop rt key val fs = xs @ \<lparr>FKey = key, FValue = convertField rt val\<rparr> # ys"
proof (induction fs)
  case Nil
  then show ?case by simp
next
  case (Cons a fs)
  show ?case
  proof (cases "FKey a = key")
    case True
    then have "a # fs = [] @ a # fs \<and> FKey a = key \<and> key \<notin> FKey ` set [] \<and>
      AddField_loop rt key val (a # fs) = [] @ \<lparr>FKey = key, FValue = convertField rt val\<rparr> # fs"
      by auto
    then show ?thesis by blast
  next
    case False
    then have "key \<in> FKey ` set fs" using Cons.prems by auto
    then obtain xs old ys where h: "fs = xs @ old # ys" "FKey old = key" "key \<notin> FKey ` set xs"
      "AddField_loop rt key val fs = xs @ \<lparr>FKey = key, FValue = convertField rt val\<rparr> # ys"
      using Cons.IH by blast
    then have "a # fs = (a # xs) @ old # ys \<and> FKey old = key \<and> key \<notin> FKey ` set (a # xs) \<and>
      AddField_loop rt key val (a # fs) =
        (a # xs) @ \<lparr>FKey = key, FValue = convertField rt val\<rparr> # ys"
      using False by auto
    then show ?thesis by blast
  qed
qed

lemma NewMetric_field_fields:
  "fields_m (NewMetric_field rt m (k, v)) =
     (if convertField rt v = VNil then fields_m m
      else AddField_loop rt k v (fields_m m))"
proof -
  have "AddField_loop rt k (convertField rt v) fs = AddField_loop rt k v fs" for fs
    by (induction fs) (simp_all add: convertField_idem)
  then show ?thesis by (simp add: NewMetric_field_def AddField_def Let_def)
qed

lemma foldl_NewMetric_field:
  "distinct (map fst fs) \<Longrightarrow> fst ` set fs \<inter> FKey ` set (fields_m m) = {} \<Longrightarrow>
   fields_m (foldl (NewMetric_field rt) m fs) =
   fields_m m @ map (\<lambda>(k, v). \<lparr>FKey = k, FValue = convertField rt v\<rparr>)
                  (filter (\<lambda>(k, v). convertField rt v \<noteq> VNil) fs)"
proof (induction fs arbitrary: m)
  case Nil
  then show ?case by simp
next
  case (Cons kv fs)
  obtain k v where kv: "kv = (k, v)" by (cases kv)
  have kn: "k \<notin> FKey ` set (fields_m m)" using Cons.prems(2) kv by auto
  let ?m = "NewMetric_field rt m (k, v)"
  have fm: "fields_m ?m = (if convertField rt v = VNil then fields_m m
     else fields_m m @ [\<lparr>FKey = k, FValue = convertField rt v\<rparr>])"
    using kn by (simp add: NewMetric_field_fields AddField_loop_absent)
  have "distinct (map fst fs)" using Cons.prems(1) by simp
  moreover have "fst ` set fs \<inter> FKey ` set (fields_m ?m) = {}"
    using Cons.prems kv fm by (auto simp: image_iff)
  ultimately have "fields_m (foldl (NewMetric_field rt) ?m fs) =
     fields_m ?m @ map (\<lambda>(k, v). \<lparr>FKey = k, FValue = convertField rt v\<rparr>)
                  (filter (\<lambda>(k, v). convertField rt v \<noteq> VNil) fs)"
    by (rule Cons.IH)
  then show ?case using kv fm by simp
qed

lemma fields_NewMetric:
  assumes "distinct (map fst fieldmap)"
  shows "fields_m (NewMetric rt nm tagmap fieldmap t tps) =
     map (\<lambda>(k, v). \<lparr>FKey = k, FValue = convertField rt v\<rparr>)
       (filter (\<lambda>(k, v). convertField rt v \<noteq> VNil) fieldmap)"
proof (cases fieldmap)
  case Nil
  then show ?thesis by (simp add: NewMetric_def Let_def)
next
  case (Cons a list)
  then have "fields_m (NewMetric rt nm tagmap fieldmap t tps) =
     fields_m (foldl (NewMetric_field rt)
       (\<lparr>name = nm, tags = (if length tagmap > 0
               then sort_key Key (map (\<lambda>(k, v). \<lparr>Key = k, Value = v\<rparr>) tagmap)
               else []), fields_m = [], tm = t, tp = (case tps of tp0 # _ \<Rightarrow> tp0 | [] \<Rightarrow> Untyped),
          aggregate = False\<rparr>) fieldmap)"
    by (simp add: NewMetric_def Let_def)
  also have "\<dots> = [] @ map (\<lambda>(k, v). \<lparr>FKey = k, FValue = convertField rt v\<rparr>)
       (filter (\<lambda>(k, v). convertField rt v \<noteq> VNil) fieldmap)"
    using assms by (subst foldl_NewMetric_field) simp_all
  finally show ?thesis by simp
qed

text \<open>
  C9: a result of the normalizer other than nil is normalized to itself; and so, the
  keys of the field map being distinct, \<open>NewMetric\<close>, which normalizes a value and
  hands the result to \<open>AddField\<close>, which normalizes again, stores for each key whose
  value converts exactly what one normalization gives, in the order of the map.
\<close>

theorem normalizer_idempotent_on_results:
  "(convertField rt v \<noteq> VNil \<longrightarrow> convertField rt (convertField rt v) = convertField rt v) \<and>
   (distinct (map fst fieldmap) \<longrightarrow>
      fields_m (NewMetric rt nm tagmap fieldmap t tps) =
        map (\<lambda>(k, v). \<lparr>FKey = k, FValue = convertField rt v\<rparr>)
          (filter (\<lambda>(k, v). convertField rt v \<noteq> VNil) fieldmap))"
  by (simp add: convertField_idem fields_NewMetric)

theorem normalizer_idempotent_on_results_witness:
  "convertField example_fpu (VInt 42) \<noteq> VNil \<and>
   convertField example_fpu (convertField example_fpu (VInt 42)) =
     convertField example_fpu (VInt 42) \<and>
   distinct (map fst [(''bad'', VOther 0), (''x'', VInt 42)]) \<and>
   fields_m example_metric = [\<lparr>FKey = ''x'', FValue = VFloat64 42\<rparr>]"
  using normalizer_idempotent_on_results
    [where rt = example_fpu and v = "VInt 42"
       and fieldmap = "[(''bad'', VOther 0), (''x'', VInt 42)]"
       and nm = "''cpu''" and tagmap = "[(''host'', ''b''), (''app'', ''a'')]"
       and t = 5 and tps = "[]"]
  by (simp add: example_metric_def example_fpu_def)

text \<open>
  C3: let the value normalize to nil. A record built by \<open>NewMetric\<close> from a map that
  holds the value under a key has no field of that key. \<open>AddField\<close> with the key and
  the value leaves a field of that key holding nil: in the place of the first field
  of that key where there is one, at the end otherwise; \<open>HasField\<close> is then true and
  \<open>GetField\<close> gives nil and true.
\<close>

theorem unconvertible_dropped_by_NewMetric_stored_by_AddField:
  assumes "convertField rt v = VNil"
  shows "(distinct (map fst fieldmap) \<and> (k, v) \<in> set fieldmap \<longrightarrow>
            \<not> HasField (NewMetric rt nm tagmap fieldmap t tps) k \<and>
            k \<notin> FKey ` set (FieldList (NewMetric rt nm tagmap fieldmap t tps))) \<and>
         HasField (AddField rt m k v) k \<and>
         GetField (AddField rt m k v) k = (VNil, True) \<and>
         (if HasField m k
          then \<exists>xs old ys. fields_m m = xs @ old # ys \<and> FKey old = k \<and> k \<notin> FKey ` set xs \<and>
                 AddField rt m k v = m\<lparr>fields_m := xs @ \<lparr>FKey = k, FValue = VNil\<rparr> # ys\<rparr>
          else AddField rt m k v = m\<lparr>fields_m := fields_m m @ [\<lparr>FKey = k, FValue = VNil\<rparr>]\<rparr>)"
proof -
  have a: "\<not> HasField (NewMetric rt nm tagmap fieldmap t tps) k \<and>
            k \<notin> FKey ` set (FieldList (NewMetric rt nm tagmap fieldmap t tps))"
    if d: "distinct (map fst fieldmap)" and i: "(k, v) \<in> set fieldmap"
  proof -
    have "v' = v" if "(k, v') \<in> set fieldmap" for v'
      using d i that by (meson eq_key_imp_eq_value)
    then have "k \<notin> FKey ` set (map (\<lambda>(k, v). \<lparr>FKey = k, FValue = convertField rt v\<rparr>)
          (filter (\<lambda>(k, v). convertField rt v \<noteq> VNil) fieldmap))"
      using assms by auto
    then show ?thesis
      using d by (simp add: HasField_def HasField_loop_iff FieldList_def fields_NewMetric)
  qed
  have b: "HasField (AddField rt m k v) k"
    by (simp add: HasField_def HasField_loop_iff AddField_def FKey_set_AddField_loop)
  have c: "GetField (AddField rt m k v) k = (VNil, True)"
    using assms by (simp add: GetField_def AddField_def GetField_AddField_loop)
  have e: "if HasField m k
          then \<exists>xs old ys. fields_m m = xs @ old # ys \<and> FKey old = k \<and> k \<notin> FKey ` set xs \<and>
                 AddField rt m k v = m\<lparr>fields_m := xs @ \<lparr>FKey = k, FValue = VNil\<rparr> # ys\<rparr>
          else AddField rt m k v = m\<lparr>fields_m := fields_m m @ [\<lparr>FKey = k, FValue = VNil\<rparr>]\<rparr>"
  proof (cases "HasField m k")
    case True
    then have "k \<in> FKey ` set (fields_m m)" by (simp add: HasField_def HasField_loop_iff)
    from AddField_loop_present [OF this, of rt v] show ?thesis
      unfolding AddField_def using True assms by fastforce
  next
    case False
    then have "k \<notin> FKey ` set (fields_m m)" by (simp add: HasField_def HasField_loop_iff)
    then show ?thesis using False assms by (simp add: AddField_def AddField_loop_absent)
  qed
  from a b c e show ?thesis by blast
qed

theorem unconvertible_dropped_by_NewMetric_stored_by_AddField_witness:
  "convertField example_fpu (VOther 0) = VNil \<and>
   distinct (map fst [(''bad'', VOther 0), (''x'', VInt 42)]) \<and>
   (''bad'', VOther 0) \<in> set [(''bad'', VOther 0), (''x'', VInt 42)] \<and>
   \<not> HasField example_metric ''bad'' \<and>
   HasField (AddField example_fpu example_metric ''bad'' (VOther 0)) ''bad'' \<and>
   GetField (AddField example_fpu example_metric ''bad'' (VOther 0)) ''bad'' = (VNil, True)"
  using unconvertible_dropped_by_NewMetric_stored_by_AddField
    [where rt = example_fpu and v = "VOther 0"
       and fieldmap = "[(''bad'', VOther 0), (''x'', VInt 42)]" and k = "''bad''"
       and nm = "''cpu''" and tagmap = "[(''host'', ''b''), (''app'', ''a'')]"
       and t = 5 and tps = "[]" and m = example_metric]
  by (simp add: example_metric_def)

subsection \<open>The aggregate flag\<close>

text \<open>
  C4: whatever the argument, \<open>SetAggregate\<close> leaves the flag true; after
  \<open>SetAggregate(false)\<close>, \<open>IsAggregate\<close> returns true.
\<close>

theorem SetAggregate_ignores_argument:
  "aggregate (SetAggregate m b) = True \<and> IsAggregate (SetAggregate m b) = True \<and>
   IsAggregate (SetAggregate m False) = True"
  by (simp add: SetAggregate_def IsAggregate_def)

subsection \<open>What the hash reads\<close>

lemma perform_neutral:
  "hash_neutral c \<Longrightarrow> name (perform rt m c) = name m \<and> tags (perform rt m c) = tags m"
  by (cases c) (simp_all add: AddField_def RemoveField_def SetTime_def)

lemma run_neutral:
  "list_all hash_neutral cs \<Longrightarrow> name (run rt m cs) = name m \<and> tags (run rt m cs) = tags m"
  unfolding run_def
  by (induction cs arbitrary: m) (simp_all add: perform_neutral)

text \<open>
  C6: a run of \<open>AddField\<close>, \<open>RemoveField\<close> and \<open>SetTime\<close> calls leaves \<open>HashID\<close> as it
  was; two records with the same name and the same tags have the same \<open>HashID\<close>; and
  the records named \<open>"cpu"\<close> with the one tag \<open>host\<close> of value \<open>"a"\<close> and of value
  \<open>"b"\<close> have different ones, whatever their fields, times and kinds.
\<close>

theorem HashID_depends_on_name_and_tags_only:
  "(list_all hash_neutral cs \<longrightarrow> HashID (run rt m cs) = HashID m) \<and>
   (name m1 = name m2 \<and> tags m1 = tags m2 \<longrightarrow> HashID m1 = HashID m2) \<and>
   HashID (NewMetric rt ''cpu'' [(''host'', ''a'')] fieldmap1 t1 tps1) \<noteq>
   HashID (NewMetric rt ''cpu'' [(''host'', ''b'')] fieldmap2 t2 tps2)"
proof -
  have a: "list_all hash_neutral cs \<longrightarrow> HashID (run rt m cs) = HashID m"
    by (auto intro: HashID_cong simp: run_neutral)
  have b: "name m1 = name m2 \<and> tags m1 = tags m2 \<longrightarrow> HashID m1 = HashID m2"
    by (auto intro: HashID_cong)
  have "HashID (NewMetric rt ''cpu'' [(''host'', ''a'')] fieldmap1 t1 tps1) = 3277929631377788876"
    by (simp add: HashID_def name_NewMetric tags_NewMetric Sum64_def New64a_def offset64_def
        prime64_def bytes_def LF_def)
  moreover
  have "HashID (NewMetric rt ''cpu'' [(''host'', ''b'')] fieldmap2 t2 tps2) = 3276973056261434531"
    by (simp add: HashID_def name_NewMetric tags_NewMetric Sum64_def New64a_def offset64_def
        prime64_def bytes_def LF_def)
  ultimately have c: "HashID (NewMetric rt ''cpu'' [(''host'', ''a'')] fieldmap1 t1 tps1) \<noteq>
   HashID (NewMetric rt ''cpu'' [(''host'', ''b'')] fieldmap2 t2 tps2)" by simp
  from a b c show ?thesis by blast
qed

theorem HashID_depends_on_name_and_tags_only_witness:
  "list_all hash_neutral [CallAddField ''x'' (VInt 7), CallSetTime 9, CallRemoveField ''y''] \<and>
   HashID (run example_fpu example_metric
             [CallAddField ''x'' (VInt 7), CallSetTime 9, CallRemoveField ''y'']) =
     HashID example_metric \<and>
   name (SetTime example_metric 11) = name example_metric \<and>
   tags (SetTime example_metric 11) = tags example_metric \<and>
   HashID (SetTime example_metric 11) = HashID example_metric"
  using HashID_depends_on_name_and_tags_only
    [where cs = "[CallAddField ''x'' (VInt 7), CallSetTime 9, CallRemoveField ''y'']"
       and rt = example_fpu and m = example_metric
       and ?m1.0 = "SetTime example_metric 11" and ?m2.0 = example_metric]
  by (simp add: SetTime_def)

section \<open>Properties of the record in the store\<close>

subsection \<open>The operations on slices\<close>

lemma length_elems: "in_bounds arrs s \<Longrightarrow> length (elems arrs s) = len s"
  by (auto simp: in_bounds_def elems_def split: option.splits)

lemma elems_nil: "array s = None \<Longrightarrow> elems arrs s = []"
  by (simp add: elems_def)

lemma grown_refl: "grown a arrs arrs"
  by (simp add: grown_def)

lemma grown_trans:
  "grown a arrs arrs1 \<Longrightarrow> grown a1 arrs1 arrs2 \<Longrightarrow>
   a1 = a \<or> (\<exists>c\<ge>length arrs. a1 = Some c) \<Longrightarrow> grown a arrs arrs2"
  by (auto simp: grown_def)

lemma grown_elems:
  "grown a arrs arrs' \<Longrightarrow> in_bounds arrs s0 \<Longrightarrow> array s0 \<noteq> a \<or> array s0 = None \<Longrightarrow>
   elems arrs' s0 = elems arrs s0 \<and> in_bounds arrs' s0"
  by (auto simp: grown_def elems_def in_bounds_def split: option.splits)

text \<open>
  What each operation of the language does to the elements of the slice it is given,
  and that it writes no other array.
\<close>

lemma append_go_effect:
  assumes "in_bounds arrs s" "append_go grow arrs s x = (arrs', s')"
  shows "in_bounds arrs' s' \<and> elems arrs' s' = elems arrs s @ [x] \<and> len s' = Suc (len s) \<and>
         grown (array s) arrs arrs' \<and>
         (array s' = array s \<or> array s' = Some (length arrs)) \<and> array s' \<noteq> None"
proof (cases "array s")
  case None
  then show ?thesis using assms
    by (auto simp: append_go_def in_bounds_def elems_def grown_def nth_append)
next
  case (Some a)
  show ?thesis
  proof (cases "len s < length (arrs ! a)")
    case True
    then show ?thesis using assms Some
      by (auto simp: append_go_def in_bounds_def elems_def grown_def take_Suc_conv_app_nth)
  next
    case False
    then show ?thesis using assms Some
      by (auto simp: append_go_def in_bounds_def elems_def grown_def nth_append)
  qed
qed

lemma index_set_effect:
  assumes "in_bounds arrs s" "i < len s"
  shows "\<exists>arrs'. index_set arrs s i x = Some arrs' \<and> in_bounds arrs' s \<and>
           elems arrs' s = (elems arrs s)[i := x] \<and> grown (array s) arrs arrs' \<and>
           length arrs' = length arrs"
proof (cases "array s")
  case None
  then show ?thesis using assms by (simp add: in_bounds_def)
next
  case (Some a)
  then have a: "a < length arrs" "len s \<le> length (arrs ! a)"
    using assms(1) by (auto simp: in_bounds_def)
  have c: "index_set arrs s i x = Some (arrs[a := (arrs ! a)[i := x]])"
    using assms Some by (simp add: index_set_def)
  have b: "in_bounds (arrs[a := (arrs ! a)[i := x]]) s"
    using a Some by (simp add: in_bounds_def)
  have el: "elems (arrs[a := (arrs ! a)[i := x]]) s = (elems arrs s)[i := x]"
    using a Some by (simp add: elems_def take_update_swap)
  have g: "grown (array s) arrs (arrs[a := (arrs ! a)[i := x]])"
    using Some by (auto simp: grown_def)
  show ?thesis using c b el g by simp
qed

lemma copy_go_effect:
  assumes "in_bounds arrs s" "d \<le> len s" "r \<le> len s"
  shows "\<exists>arrs'. copy_go arrs s d r = Some arrs' \<and> in_bounds arrs' s \<and>
           elems arrs' s =
             take d (elems arrs s) @
             take (min (len s - d) (len s - r)) (drop r (elems arrs s)) @
             drop (d + min (len s - d) (len s - r)) (elems arrs s) \<and>
           grown (array s) arrs arrs' \<and> length arrs' = length arrs"
proof (cases "array s")
  case None
  then show ?thesis using assms
    by (auto simp: copy_go_def in_bounds_def elems_def grown_def)
next
  case (Some a)
  then have a: "a < length arrs" "len s \<le> length (arrs ! a)"
    using assms(1) by (auto simp: in_bounds_def)
  define n where "n = min (len s - d) (len s - r)"
  define xs where "xs = arrs ! a"
  have c: "copy_go arrs s d r = Some (arrs[a := take d xs @ take n (drop r xs) @ drop (d + n) xs])"
    using assms Some by (simp add: copy_go_def Let_def n_def xs_def)
  have n: "d + n \<le> len s" "r + n \<le> len s" using assms by (auto simp: n_def)
  have l: "len s \<le> length xs" using a by (simp add: xs_def)
  have dl: "d \<le> length xs" "r + n \<le> length xs" "d + n \<le> length xs" using n l assms by auto
  have la: "length (take d xs) = d" using dl by simp
  have lb: "length (take n (drop r xs)) = n" using dl by simp
  have 1: "take (len s) (take d xs @ take n (drop r xs) @ drop (d + n) xs) =
        take d xs @ take n (drop r xs) @ take (len s - (d + n)) (drop (d + n) xs)"
    using n by (simp only: take_append la lb) (simp add: assms)
  have 2: "take d (take (len s) xs) = take d xs" using assms by (simp add: min_absorb2)
  have 3: "take n (drop r (take (len s) xs)) = take n (drop r xs)"
    using n by (simp add: drop_take min_absorb2)
  have 4: "drop (d + n) (take (len s) xs) = take (len s - (d + n)) (drop (d + n) xs)"
    by (simp add: drop_take)
  have e: "take (len s) (take d xs @ take n (drop r xs) @ drop (d + n) xs) =
        take d (take (len s) xs) @ take n (drop r (take (len s) xs)) @ drop (d + n) (take (len s) xs)"
    by (simp only: 1 2 3 4)
  have b: "in_bounds (arrs[a := take d xs @ take n (drop r xs) @ drop (d + n) xs]) s"
    using a Some dl l by (simp add: in_bounds_def)
  have el: "elems (arrs[a := take d xs @ take n (drop r xs) @ drop (d + n) xs]) s =
      take d (elems arrs s) @ take n (drop r (elems arrs s)) @ drop (d + n) (elems arrs s)"
    using a Some e by (simp add: elems_def xs_def)
  have g: "grown (array s) arrs (arrs[a := take d xs @ take n (drop r xs) @ drop (d + n) xs])"
    using Some by (auto simp: grown_def)
  show ?thesis using c b el g by (simp add: n_def)
qed

lemma drop_last_effect:
  assumes "in_bounds arrs s" "0 < len s"
  shows "\<exists>s'. drop_last s = Some s' \<and> in_bounds arrs s' \<and> array s' = array s \<and>
           len s' = len s - 1 \<and> elems arrs s' = butlast (elems arrs s)"
  using assms
  by (auto simp: drop_last_def in_bounds_def elems_def butlast_take split: option.splits)


lemma wf_sliceD:
  assumes "wf_slice cells arrs s"
  shows "in_bounds arrs s" "length (elems arrs s) = len s" "distinct (elems arrs s)"
    "\<And>p. p \<in> set (elems arrs s) \<Longrightarrow> \<exists>q<length cells. p = Some q"
  using assms
  by (auto simp: wf_slice_def length_elems list_all_iff valid_ptr_def split: option.splits)

lemma wf_sliceI:
  assumes "in_bounds arrs s" "distinct (elems arrs s)"
    "\<And>p. p \<in> set (elems arrs s) \<Longrightarrow> \<exists>q<length cells. p = Some q"
  shows "wf_slice cells arrs s"
proof -
  have "valid_ptr cells p" if "p \<in> set (elems arrs s)" for p
    using assms(3) [OF that] by (auto simp: valid_ptr_def)
  then show ?thesis using assms(1,2) by (simp add: wf_slice_def list_all_iff)
qed

lemma deref_cong:
  assumes "\<And>p. p \<in> set es \<Longrightarrow> \<exists>q<length cells. p = Some q"
    and "\<And>q. q < length cells \<Longrightarrow> Some q \<in> set es \<Longrightarrow> cells' ! q = cells ! q"
  shows "map (\<lambda>p. cells' ! the p) es = map (\<lambda>p. cells ! the p) es"
proof (rule map_cong [OF refl])
  fix p assume "p \<in> set es"
  then obtain q where "q < length cells" "p = Some q" "Some q \<in> set es" using assms(1) by blast
  then show "cells' ! the p = cells ! the p" using assms(2) by simp
qed

lemma footprint_refl: "footprint cells arrs s cells arrs s"
  by (simp add: footprint_def grown_refl)

lemma apart_slices_sym: "apart_slices arrs s1 s2 \<Longrightarrow> apart_slices arrs s2 s1"
  by (auto simp: apart_slices_def)

text \<open>
  A call with a footprint on one slice leaves a well-formed slice apart from it
  well formed, with the contents it had, and apart from the slice the call returns.
\<close>

lemma footprint_frame:
  assumes f: "footprint cells arrs s cells' arrs' s'"
    and w: "wf_slice cells arrs s0"
    and ap: "apart_slices arrs s s0"
  shows "wf_slice cells' arrs' s0 \<and> contents cells' arrs' s0 = contents cells arrs s0 \<and>
         apart_slices arrs' s' s0"
proof -
  from f have g: "grown (array s) arrs arrs'"
    and lc: "length cells \<le> length cells'"
    and keep: "\<And>q. q < length cells \<Longrightarrow> Some q \<notin> set (elems arrs s) \<Longrightarrow> cells' ! q = cells ! q"
    and arr: "array s' = array s \<or> (\<exists>b\<ge>length arrs. array s' = Some b)"
    and new: "\<And>p. p \<in> set (elems arrs' s') \<Longrightarrow>
                p \<in> set (elems arrs s) \<or> (\<exists>q\<ge>length cells. p = Some q)"
    by (auto simp: footprint_def)
  note w0 = wf_sliceD [OF w]
  from ap have ne: "array s0 \<noteq> array s \<or> array s0 = None"
    and dj: "set (elems arrs s) \<inter> set (elems arrs s0) = {}"
    by (auto simp: apart_slices_def)
  from grown_elems [OF g w0(1) ne] have e: "elems arrs' s0 = elems arrs s0"
    and b: "in_bounds arrs' s0" by auto
  have v: "\<exists>q<length cells'. p = Some q" if "p \<in> set (elems arrs' s0)" for p
    using that w0(4) e lc by fastforce
  have w': "wf_slice cells' arrs' s0"
    using b v w0(3) e by (intro wf_sliceI) auto
  have c: "contents cells' arrs' s0 = contents cells arrs s0"
    unfolding contents_def e
  proof (rule deref_cong)
    show "\<exists>q<length cells. p = Some q" if "p \<in> set (elems arrs s0)" for p
      using that by (rule w0(4))
    show "cells' ! q = cells ! q" if "q < length cells" "Some q \<in> set (elems arrs s0)" for q
      using that dj by (intro keep) auto
  qed
  have a1: "array s' \<noteq> array s0 \<or> array s' = None"
  proof (cases "array s0")
    case None
    then show ?thesis by auto
  next
    case (Some b0)
    then have "b0 < length arrs" using w0(1) by (simp add: in_bounds_def)
    then show ?thesis using arr ne Some by auto
  qed
  have a2: "set (elems arrs' s') \<inter> set (elems arrs' s0) = {}"
  proof -
    have False if "p \<in> set (elems arrs' s')" "p \<in> set (elems arrs s0)" for p
    proof -
      from new [OF that(1)] show False
      proof
        assume "p \<in> set (elems arrs s)"
        then show False using that(2) dj by auto
      next
        assume "\<exists>q\<ge>length cells. p = Some q"
        then show False using w0(4) [OF that(2)] by auto
      qed
    qed
    then show ?thesis unfolding e by auto
  qed
  from w' c a1 a2 show ?thesis by (simp add: apart_slices_def)
qed

lemma load_elem:
  assumes "wf_slice cells arrs s" "i < len s"
  shows "load cells (elems arrs s ! i) = Some (contents cells arrs s ! i)"
proof -
  note w = wf_sliceD [OF assms(1)]
  have "elems arrs s ! i \<in> set (elems arrs s)" using w(2) assms(2) by simp
  then obtain q where "q < length cells" "elems arrs s ! i = Some q" using w(4) by blast
  then show ?thesis using w(2) assms(2) by (simp add: load_def contents_def)
qed

text \<open>
  The steps the methods are made of, on a well-formed slice: appending a new struct,
  writing through an element, putting a new struct in the place of an element,
  taking an element out, and putting a new struct in before an element.
\<close>

lemma push_effect:
  assumes w: "wf_slice cells arrs s"
    and al: "alloc cells x = (cells', p)"
    and ap: "append_go grow arrs s p = (arrs', s')"
  shows "wf_slice cells' arrs' s' \<and> footprint cells arrs s cells' arrs' s' \<and>
         contents cells' arrs' s' = contents cells arrs s @ [x]"
proof -
  note w0 = wf_sliceD [OF w]
  from al have c: "cells' = cells @ [x]" and p: "p = Some (length cells)"
    by (auto simp: alloc_def)
  from append_go_effect [OF w0(1) ap] have b: "in_bounds arrs' s'"
    and e: "elems arrs' s' = elems arrs s @ [p]"
    and g: "grown (array s) arrs arrs'"
    and a: "array s' = array s \<or> array s' = Some (length arrs)" by auto
  have pn: "p \<notin> set (elems arrs s)" using w0(4) p by fastforce
  have w': "wf_slice cells' arrs' s'"
  proof (rule wf_sliceI [OF b])
    show "distinct (elems arrs' s')" using e pn w0(3) by simp
    show "\<exists>q<length cells'. q' = Some q" if "q' \<in> set (elems arrs' s')" for q'
      using that e p c w0(4) by fastforce
  qed
  have f: "footprint cells arrs s cells' arrs' s'"
    unfolding footprint_def using g a e p c by (auto simp: nth_append)
  have "map (\<lambda>p. cells' ! the p) (elems arrs s) = map (\<lambda>p. cells ! the p) (elems arrs s)"
    by (rule deref_cong) (use w0(4) c in \<open>auto simp: nth_append\<close>)
  then have "contents cells' arrs' s' = contents cells arrs s @ [x]"
    by (simp add: contents_def e p c)
  with w' f show ?thesis by simp
qed


lemma shift_up:
  assumes "i < length es"
  shows "(take (Suc i) (es @ [z]) @ take (length es - i) (drop i (es @ [z])) @
          drop (Suc i + (length es - i)) (es @ [z]))[i := q] = take i es @ q # drop i es"
proof -
  have 1: "take (Suc i) (es @ [z]) = take i es @ [es ! i]"
    using assms by (simp add: take_Suc_conv_app_nth)
  have 2: "take (length es - i) (drop i (es @ [z])) = drop i es" using assms by simp
  have 3: "drop (Suc i + (length es - i)) (es @ [z]) = []" using assms by simp
  have "((take i es @ [es ! i]) @ drop i es)[i := q] = take i es @ q # drop i es"
    using assms by (simp add: list_update_append)
  then show ?thesis by (simp only: 1 2 3 append_Nil2)
qed

lemma shift_down:
  assumes "i < length es"
  shows "butlast ((take i es @ take (length es - Suc i) (drop (Suc i) es) @
            drop (i + (length es - Suc i)) es)[length es - 1 := z]) =
         take i es @ drop (Suc i) es"
proof -
  let ?xs = "take i es @ drop (Suc i) es"
  have ne: "es \<noteq> []" using assms by auto
  have 2: "take (length es - Suc i) (drop (Suc i) es) = drop (Suc i) es" by simp
  have "drop (length es - 1) es = [last es]"
    using ne by (metis append_butlast_last_id append_eq_conv_conj length_butlast)
  moreover have "i + (length es - Suc i) = length es - 1" using assms by simp
  ultimately have 3: "drop (i + (length es - Suc i)) es = [last es]" by simp
  have l: "length ?xs = length es - 1" using assms by simp
  have e: "take i es @ take (length es - Suc i) (drop (Suc i) es) @
            drop (i + (length es - Suc i)) es = ?xs @ [last es]"
    by (simp only: 2 3 append_assoc)
  have "(?xs @ [last es])[length ?xs := z] = ?xs @ [z]" by (rule list_update_length)
  then have "(?xs @ [last es])[length es - 1 := z] = ?xs @ [z]" by (simp only: l)
  then show ?thesis by (simp only: e butlast_snoc)
qed

lemma take_drop_disjoint:
  assumes "distinct es" "i \<le> j"
  shows "set (take i es) \<inter> set (drop j es) = {}"
proof -
  have "distinct (take i es @ drop i es)" using assms(1) by simp
  then have "set (take i es) \<inter> set (drop i es) = {}" by (simp only: distinct_append)
  moreover have "set (drop j es) \<subseteq> set (drop i es)"
    using assms(2) by (rule set_drop_subset_set_drop)
  ultimately show ?thesis by blast
qed

lemma distinct_take_drop:
  assumes "distinct es" "i \<le> j"
  shows "distinct (take i es @ drop j es)"
  using assms take_drop_disjoint [OF assms] by (simp add: distinct_append)

lemma distinct_insert_at:
  assumes "distinct es" "q \<notin> set es"
  shows "distinct (take i es @ q # drop i es)"
proof -
  have "set (take i es) \<inter> set (drop i es) = {}"
    using assms(1) by (rule take_drop_disjoint) simp
  moreover have "q \<notin> set (take i es)" "q \<notin> set (drop i es)"
    using assms(2) by (auto dest: in_set_takeD in_set_dropD)
  ultimately show ?thesis using assms(1) by (simp add: distinct_append)
qed

lemma poke_effect:
  assumes w: "wf_slice cells arrs s" and i: "i < len s"
  shows "\<exists>cells'. poke cells (elems arrs s ! i) x = Some cells' \<and> wf_slice cells' arrs s \<and>
           footprint cells arrs s cells' arrs s \<and>
           contents cells' arrs s = (contents cells arrs s)[i := x]"
proof -
  note w0 = wf_sliceD [OF w]
  have m: "elems arrs s ! i \<in> set (elems arrs s)" using w0(2) i by simp
  then obtain q where q: "q < length cells" "elems arrs s ! i = Some q" using w0(4) by blast
  have p: "poke cells (elems arrs s ! i) x = Some (cells[q := x])"
    using q by (simp add: poke_def)
  have w': "wf_slice (cells[q := x]) arrs s"
    using w0 by (intro wf_sliceI) auto
  have "cells[q := x] ! q' = cells ! q'" if "Some q' \<notin> set (elems arrs s)" for q'
  proof -
    have "q \<noteq> q'" using that m q(2) by auto
    then show ?thesis by simp
  qed
  then have f: "footprint cells arrs s (cells[q := x]) arrs s"
    unfolding footprint_def by (simp add: grown_refl)
  have "map (\<lambda>p. cells[q := x] ! the p) (elems arrs s) =
        (map (\<lambda>p. cells ! the p) (elems arrs s))[i := x]"
  proof (rule nth_equalityI)
    show "length (map (\<lambda>p. cells[q := x] ! the p) (elems arrs s)) =
          length ((map (\<lambda>p. cells ! the p) (elems arrs s))[i := x])" by simp
    fix j assume "j < length (map (\<lambda>p. cells[q := x] ! the p) (elems arrs s))"
    then have j: "j < length (elems arrs s)" by simp
    show "map (\<lambda>p. cells[q := x] ! the p) (elems arrs s) ! j =
          (map (\<lambda>p. cells ! the p) (elems arrs s))[i := x] ! j"
    proof (cases "j = i")
      case True
      then show ?thesis using j q by simp
    next
      case False
      then have "elems arrs s ! j \<noteq> Some q"
        using j i w0(2,3) q(2) by (metis nth_eq_iff_index_eq)
      moreover obtain q' where "q' < length cells" "elems arrs s ! j = Some q'"
        using w0(4) j by (meson nth_mem)
      ultimately show ?thesis using j False by simp
    qed
  qed
  then have "contents (cells[q := x]) arrs s = (contents cells arrs s)[i := x]"
    by (simp add: contents_def)
  with p w' f show ?thesis by simp
qed

lemma replace_effect:
  assumes w: "wf_slice cells arrs s" and i: "i < len s"
    and al: "alloc cells x = (cells', q)"
  shows "\<exists>arrs'. index_set arrs s i q = Some arrs' \<and> wf_slice cells' arrs' s \<and>
           footprint cells arrs s cells' arrs' s \<and>
           contents cells' arrs' s = (contents cells arrs s)[i := x]"
proof -
  note w0 = wf_sliceD [OF w]
  from al have c: "cells' = cells @ [x]" and q: "q = Some (length cells)"
    by (auto simp: alloc_def)
  from index_set_effect [OF w0(1) i] obtain arrs' where
    s: "index_set arrs s i q = Some arrs'" and b: "in_bounds arrs' s"
    and e: "elems arrs' s = (elems arrs s)[i := q]" and g: "grown (array s) arrs arrs'"
    by blast
  have qn: "q \<notin> set (elems arrs s)" using w0(4) q by fastforce
  have sub: "set ((elems arrs s)[i := q]) \<subseteq> insert q (set (elems arrs s))"
    by (rule set_update_subset_insert)
  have w': "wf_slice cells' arrs' s"
  proof (rule wf_sliceI [OF b])
    show "distinct (elems arrs' s)" unfolding e using w0(3) qn by (simp add: distinct_list_update)
    show "\<exists>q'<length cells'. p = Some q'" if "p \<in> set (elems arrs' s)" for p
      using that sub w0(4) [of p] unfolding e c q by fastforce
  qed
  have f: "footprint cells arrs s cells' arrs' s"
    unfolding footprint_def using g sub e q c by (auto simp: nth_append)
  have m: "map (\<lambda>p. cells' ! the p) (elems arrs s) = map (\<lambda>p. cells ! the p) (elems arrs s)"
    by (rule deref_cong) (use w0(4) c in \<open>auto simp: nth_append\<close>)
  have "cells' ! the q = x" by (simp add: q c)
  then have "contents cells' arrs' s = (contents cells arrs s)[i := x]"
    by (simp only: contents_def e map_update m)
  with s w' f show ?thesis by simp
qed

lemma remove_effect:
  assumes w: "wf_slice cells arrs s" and i: "i < len s"
  shows "\<exists>arrs1 arrs2 s'. copy_go arrs s i (Suc i) = Some arrs1 \<and>
           index_set arrs1 s (len s - 1) None = Some arrs2 \<and> drop_last s = Some s' \<and>
           wf_slice cells arrs2 s' \<and> footprint cells arrs s cells arrs2 s' \<and>
           contents cells arrs2 s' =
             take i (contents cells arrs s) @ drop (Suc i) (contents cells arrs s)"
proof -
  note w0 = wf_sliceD [OF w]
  let ?es = "elems arrs s"
  have k: "min (len s - i) (len s - Suc i) = len s - Suc i" by simp
  from copy_go_effect [OF w0(1), of i "Suc i"] i obtain arrs1 where
    c1: "copy_go arrs s i (Suc i) = Some arrs1" and b1: "in_bounds arrs1 s"
    and e1: "elems arrs1 s = take i ?es @ take (len s - Suc i) (drop (Suc i) ?es) @
               drop (i + (len s - Suc i)) ?es"
    and g1: "grown (array s) arrs arrs1" and l1: "length arrs1 = length arrs"
    unfolding k by auto
  from index_set_effect [OF b1, of "len s - 1" None] i obtain arrs2 where
    c2: "index_set arrs1 s (len s - 1) None = Some arrs2" and b2: "in_bounds arrs2 s"
    and e2: "elems arrs2 s = (elems arrs1 s)[len s - 1 := None]"
    and g2: "grown (array s) arrs1 arrs2"
    by auto
  from drop_last_effect [OF b2] i obtain s' where
    c3: "drop_last s = Some s'" and b3: "in_bounds arrs2 s'" and a3: "array s' = array s"
    and e3: "elems arrs2 s' = butlast (elems arrs2 s)"
    by auto
  have e: "elems arrs2 s' = take i ?es @ drop (Suc i) ?es"
    unfolding e3 e2 e1 using shift_down [of i ?es None] i w0(2) by simp
  have sub: "set (elems arrs2 s') \<subseteq> set ?es"
    unfolding e by (auto dest: in_set_takeD in_set_dropD)
  have d: "distinct (take i ?es @ drop (Suc i) ?es)"
    using w0(3) by (rule distinct_take_drop) simp
  have w': "wf_slice cells arrs2 s'"
    using sub w0(4) d by (intro wf_sliceI [OF b3]) (auto simp: e)
  have g: "grown (array s) arrs arrs2" using g1 g2 by (rule grown_trans) simp
  have f: "footprint cells arrs s cells arrs2 s'"
    unfolding footprint_def using g a3 sub by auto
  have "contents cells arrs2 s' =
             take i (contents cells arrs s) @ drop (Suc i) (contents cells arrs s)"
    by (simp add: contents_def e take_map drop_map)
  with c1 c2 c3 w' f show ?thesis by simp
qed

lemma insert_effect:
  assumes w: "wf_slice cells arrs s" and i: "i < len s"
    and ap: "append_go grow arrs s None = (arrs1, s1)"
    and al: "alloc cells x = (cells', q)"
  shows "\<exists>arrs2 arrs3. copy_go arrs1 s1 (Suc i) i = Some arrs2 \<and>
           index_set arrs2 s1 i q = Some arrs3 \<and>
           wf_slice cells' arrs3 s1 \<and> footprint cells arrs s cells' arrs3 s1 \<and>
           contents cells' arrs3 s1 =
             take i (contents cells arrs s) @ x # drop i (contents cells arrs s)"
proof -
  note w0 = wf_sliceD [OF w]
  let ?es = "elems arrs s"
  from al have c: "cells' = cells @ [x]" and q: "q = Some (length cells)"
    by (auto simp: alloc_def)
  from append_go_effect [OF w0(1) ap] have b1: "in_bounds arrs1 s1"
    and e1: "elems arrs1 s1 = ?es @ [None]" and l1: "len s1 = Suc (len s)"
    and g1: "grown (array s) arrs arrs1"
    and a1: "array s1 = array s \<or> array s1 = Some (length arrs)" by auto
  have k: "min (len s1 - Suc i) (len s1 - i) = len s - i" using l1 by simp
  from copy_go_effect [OF b1, of "Suc i" i] i l1 obtain arrs2 where
    c2: "copy_go arrs1 s1 (Suc i) i = Some arrs2" and b2: "in_bounds arrs2 s1"
    and e2: "elems arrs2 s1 = take (Suc i) (?es @ [None]) @
               take (len s - i) (drop i (?es @ [None])) @
               drop (Suc i + (len s - i)) (?es @ [None])"
    and g2: "grown (array s1) arrs1 arrs2"
    unfolding k e1 by auto
  from index_set_effect [OF b2, of i q] i l1 obtain arrs3 where
    c3: "index_set arrs2 s1 i q = Some arrs3" and b3: "in_bounds arrs3 s1"
    and e3: "elems arrs3 s1 = (elems arrs2 s1)[i := q]"
    and g3: "grown (array s1) arrs2 arrs3"
    by auto
  have e: "elems arrs3 s1 = take i ?es @ q # drop i ?es"
    unfolding e3 e2 using shift_up [of i ?es None q] i w0(2) by simp
  have qn: "q \<notin> set ?es" using w0(4) q by fastforce
  have sub: "set (elems arrs3 s1) \<subseteq> insert q (set ?es)"
    unfolding e by (auto dest: in_set_takeD in_set_dropD)
  have d: "distinct (take i ?es @ q # drop i ?es)"
    using w0(3) qn by (rule distinct_insert_at)
  have w': "wf_slice cells' arrs3 s1"
  proof (rule wf_sliceI [OF b3])
    show "distinct (elems arrs3 s1)" using d by (simp add: e)
    show "\<exists>q'<length cells'. p = Some q'" if "p \<in> set (elems arrs3 s1)" for p
      using that sub w0(4) [of p] unfolding c q by fastforce
  qed
  have a1': "array s1 = array s \<or> (\<exists>b\<ge>length arrs. array s1 = Some b)" using a1 by auto
  have g12: "grown (array s) arrs arrs2" using g1 g2 a1' by (rule grown_trans)
  have g: "grown (array s) arrs arrs3" using g12 g3 a1' by (rule grown_trans)
  have f: "footprint cells arrs s cells' arrs3 s1"
    unfolding footprint_def using g a1' sub q c by (auto simp: nth_append)
  have m0: "map (\<lambda>p. cells' ! the p) ?es = map (\<lambda>p. cells ! the p) ?es"
    by (rule deref_cong) (use w0(4) c in \<open>auto simp: nth_append\<close>)
  have m: "map (\<lambda>p. cells' ! the p) (take i ?es) = take i (map (\<lambda>p. cells ! the p) ?es)"
    "map (\<lambda>p. cells' ! the p) (drop i ?es) = drop i (map (\<lambda>p. cells ! the p) ?es)"
    by (simp_all only: take_map [symmetric] drop_map [symmetric] m0)
  have "cells' ! the q = x" by (simp add: q c)
  then have "contents cells' arrs3 s1 =
             take i (contents cells arrs s) @ x # drop i (contents cells arrs s)"
    by (simp only: contents_def e map_append list.map m)
  with c2 c3 w' f show ?thesis by simp
qed

subsection \<open>The loops of the methods\<close>

lemma drop_eq_ConsD:
  assumes "p # rest = drop i es"
  shows "i < length es" "p = es ! i" "rest = drop (Suc i) es"
proof -
  show i: "i < length es" using assms by (metis drop_all list.distinct(1) not_le)
  then have "drop i es = es ! i # drop (Suc i) es" by (simp add: Cons_nth_drop_Suc)
  with assms show "p = es ! i" "rest = drop (Suc i) es" by simp_all
qed

text \<open>
  Each loop, entered at index \<open>i\<close> with the elements from \<open>i\<close> on, ends without a
  panic; the slice is well formed afterwards and holds the elements before \<open>i\<close>
  followed by what the loop on values makes of the rest.
\<close>

lemma AddTag_st_loop_effect:
  assumes w: "wf_slice (tag_cells st) (tag_arrays st) (st_tags m)"
  shows "ps = drop i (elems (tag_arrays st) (st_tags m)) \<Longrightarrow> i \<le> len (st_tags m) \<Longrightarrow>
     \<exists>st' m'. AddTag_st_loop grow st m key val i ps = Some (st', m') \<and>
        st' = st\<lparr>tag_cells := tag_cells st', tag_arrays := tag_arrays st'\<rparr> \<and>
        m' = m\<lparr>st_tags := st_tags m'\<rparr> \<and>
        wf_slice (tag_cells st') (tag_arrays st') (st_tags m') \<and>
        footprint (tag_cells st) (tag_arrays st) (st_tags m)
          (tag_cells st') (tag_arrays st') (st_tags m') \<and>
        contents (tag_cells st') (tag_arrays st') (st_tags m') =
          take i (contents (tag_cells st) (tag_arrays st) (st_tags m)) @
          AddTag_loop key val (drop i (contents (tag_cells st) (tag_arrays st) (st_tags m)))"
proof (induction ps arbitrary: i)
  case Nil
  note w0 = wf_sliceD [OF w]
  let ?C = "contents (tag_cells st) (tag_arrays st) (st_tags m)"
  have lc: "length ?C = len (st_tags m)" using w0(2) by (simp add: contents_def)
  have i: "i = len (st_tags m)" using Nil w0(2) by simp
  obtain cells' p where al: "alloc (tag_cells st) \<lparr>Key = key, Value = val\<rparr> = (cells', p)"
    by (cases "alloc (tag_cells st) \<lparr>Key = key, Value = val\<rparr>")
  obtain arrs' s' where ap: "append_go grow (tag_arrays st) (st_tags m) p = (arrs', s')"
    by (cases "append_go grow (tag_arrays st) (st_tags m) p")
  have r: "AddTag_st_loop grow st m key val i [] =
             Some (st\<lparr>tag_cells := cells', tag_arrays := arrs'\<rparr>, m\<lparr>st_tags := s'\<rparr>)"
    using al ap by simp
  from push_effect [OF w al ap] show ?case
    unfolding r using i lc by simp
next
  case (Cons p rest)
  note w0 = wf_sliceD [OF w]
  let ?cells = "tag_cells st" and ?arrs = "tag_arrays st" and ?s = "st_tags m"
  let ?C = "contents ?cells ?arrs ?s"
  from drop_eq_ConsD [OF Cons.prems(1)] w0(2)
  have i: "i < len ?s" and p: "p = elems ?arrs ?s ! i" and rest: "rest = drop (Suc i) (elems ?arrs ?s)"
    by simp_all
  have lc: "length ?C = len ?s" using w0(2) by (simp add: contents_def)
  define tag where "tag = ?C ! i"
  have ld: "load ?cells p = Some tag" unfolding p tag_def using w i by (rule load_elem)
  have dC: "drop i ?C = tag # drop (Suc i) ?C"
    using i lc by (simp add: tag_def Cons_nth_drop_Suc)
  have tC: "take (Suc i) ?C = take i ?C @ [tag]"
    using i lc by (simp add: tag_def take_Suc_conv_app_nth)
  show ?case
  proof (cases "key > Key tag")
    case True
    have "AddTag_st_loop grow st m key val i (p # rest) =
          AddTag_st_loop grow st m key val (Suc i) rest"
      using ld True by simp
    moreover have "take i ?C @ AddTag_loop key val (drop i ?C) =
          take (Suc i) ?C @ AddTag_loop key val (drop (Suc i) ?C)"
      using True by (simp add: dC tC)
    ultimately show ?thesis using Cons.IH [OF rest] i by simp
  next
    case False
    show ?thesis
    proof (cases "key = Key tag")
      case True
      from poke_effect [OF w i, of "tag\<lparr>Value := val\<rparr>"] obtain cells' where
        pk: "poke ?cells p (tag\<lparr>Value := val\<rparr>) = Some cells'"
        and w': "wf_slice cells' ?arrs ?s"
        and f: "footprint ?cells ?arrs ?s cells' ?arrs ?s"
        and c: "contents cells' ?arrs ?s = ?C[i := tag\<lparr>Value := val\<rparr>]"
        unfolding p by blast
      have r: "AddTag_st_loop grow st m key val i (p # rest) = Some (st\<lparr>tag_cells := cells'\<rparr>, m)"
        using ld True pk by simp
      have "?C[i := tag\<lparr>Value := val\<rparr>] = take i ?C @ AddTag_loop key val (drop i ?C)"
        using True i lc by (simp add: dC upd_conv_take_nth_drop)
      then show ?thesis unfolding r using w' f c by simp
    next
      case neq: False
      obtain arrs1 s1 where ap: "append_go grow ?arrs ?s None = (arrs1, s1)"
        by (cases "append_go grow ?arrs ?s None")
      obtain cells' q where al: "alloc ?cells \<lparr>Key = key, Value = val\<rparr> = (cells', q)"
        by (cases "alloc ?cells \<lparr>Key = key, Value = val\<rparr>")
      from insert_effect [OF w i ap al] obtain arrs2 arrs3 where
        c2: "copy_go arrs1 s1 (Suc i) i = Some arrs2"
        and c3: "index_set arrs2 s1 i q = Some arrs3"
        and w': "wf_slice cells' arrs3 s1"
        and f: "footprint ?cells ?arrs ?s cells' arrs3 s1"
        and c: "contents cells' arrs3 s1 = take i ?C @ \<lparr>Key = key, Value = val\<rparr> # drop i ?C"
        by blast
      have r: "AddTag_st_loop grow st m key val i (p # rest) =
                 Some (st\<lparr>tag_cells := cells', tag_arrays := arrs3\<rparr>, m\<lparr>st_tags := s1\<rparr>)"
        using ld False neq ap al c2 c3 by simp
      have "take i ?C @ \<lparr>Key = key, Value = val\<rparr> # drop i ?C =
            take i ?C @ AddTag_loop key val (drop i ?C)"
        using False neq by (simp add: dC)
      then show ?thesis unfolding r using w' f c by simp
    qed
  qed
qed


lemma RemoveTag_st_loop_effect:
  assumes w: "wf_slice (tag_cells st) (tag_arrays st) (st_tags m)"
  shows "ps = drop i (elems (tag_arrays st) (st_tags m)) \<Longrightarrow> i \<le> len (st_tags m) \<Longrightarrow>
     \<exists>st' m'. RemoveTag_st_loop st m key i ps = Some (st', m') \<and>
        st' = st\<lparr>tag_cells := tag_cells st', tag_arrays := tag_arrays st'\<rparr> \<and>
        m' = m\<lparr>st_tags := st_tags m'\<rparr> \<and>
        wf_slice (tag_cells st') (tag_arrays st') (st_tags m') \<and>
        footprint (tag_cells st) (tag_arrays st) (st_tags m)
          (tag_cells st') (tag_arrays st') (st_tags m') \<and>
        contents (tag_cells st') (tag_arrays st') (st_tags m') =
          take i (contents (tag_cells st) (tag_arrays st) (st_tags m)) @
          RemoveTag_loop key (drop i (contents (tag_cells st) (tag_arrays st) (st_tags m)))"
proof (induction ps arbitrary: i)
  case Nil
  note w0 = wf_sliceD [OF w]
  let ?C = "contents (tag_cells st) (tag_arrays st) (st_tags m)"
  have lc: "length ?C = len (st_tags m)" using w0(2) by (simp add: contents_def)
  have i: "i = len (st_tags m)" using Nil w0(2) by simp
  show ?case using w i lc by (simp add: footprint_refl)
next
  case (Cons p rest)
  note w0 = wf_sliceD [OF w]
  let ?cells = "tag_cells st" and ?arrs = "tag_arrays st" and ?s = "st_tags m"
  let ?C = "contents ?cells ?arrs ?s"
  from drop_eq_ConsD [OF Cons.prems(1)] w0(2)
  have i: "i < len ?s" and p: "p = elems ?arrs ?s ! i" and rest: "rest = drop (Suc i) (elems ?arrs ?s)"
    by simp_all
  have lc: "length ?C = len ?s" using w0(2) by (simp add: contents_def)
  define tag where "tag = ?C ! i"
  have ld: "load ?cells p = Some tag" unfolding p tag_def using w i by (rule load_elem)
  have dC: "drop i ?C = tag # drop (Suc i) ?C"
    using i lc by (simp add: tag_def Cons_nth_drop_Suc)
  have tC: "take (Suc i) ?C = take i ?C @ [tag]"
    using i lc by (simp add: tag_def take_Suc_conv_app_nth)
  show ?case
  proof (cases "Key tag = key")
    case True
    from remove_effect [OF w i] obtain arrs1 arrs2 s' where
      c1: "copy_go ?arrs ?s i (Suc i) = Some arrs1"
      and c2: "index_set arrs1 ?s (len ?s - 1) None = Some arrs2"
      and c3: "drop_last ?s = Some s'"
      and w': "wf_slice ?cells arrs2 s'"
      and f: "footprint ?cells ?arrs ?s ?cells arrs2 s'"
      and c: "contents ?cells arrs2 s' = take i ?C @ drop (Suc i) ?C"
      by blast
    have r: "RemoveTag_st_loop st m key i (p # rest) =
               Some (st\<lparr>tag_arrays := arrs2\<rparr>, m\<lparr>st_tags := s'\<rparr>)"
      using ld True c1 c2 c3 by simp
    have "take i ?C @ drop (Suc i) ?C = take i ?C @ RemoveTag_loop key (drop i ?C)"
      using True by (simp add: dC)
    then show ?thesis unfolding r using w' f c by simp
  next
    case False
    have "RemoveTag_st_loop st m key i (p # rest) = RemoveTag_st_loop st m key (Suc i) rest"
      using ld False by simp
    moreover have "take i ?C @ RemoveTag_loop key (drop i ?C) =
          take (Suc i) ?C @ RemoveTag_loop key (drop (Suc i) ?C)"
      using False by (simp add: dC tC)
    ultimately show ?thesis using Cons.IH [OF rest] i by simp
  qed
qed

lemma RemoveField_st_loop_effect:
  assumes w: "wf_slice (field_cells st) (field_arrays st) (st_fields m)"
  shows "ps = drop i (elems (field_arrays st) (st_fields m)) \<Longrightarrow> i \<le> len (st_fields m) \<Longrightarrow>
     \<exists>st' m'. RemoveField_st_loop st m key i ps = Some (st', m') \<and>
        st' = st\<lparr>field_cells := field_cells st', field_arrays := field_arrays st'\<rparr> \<and>
        m' = m\<lparr>st_fields := st_fields m'\<rparr> \<and>
        wf_slice (field_cells st') (field_arrays st') (st_fields m') \<and>
        footprint (field_cells st) (field_arrays st) (st_fields m)
          (field_cells st') (field_arrays st') (st_fields m') \<and>
        contents (field_cells st') (field_arrays st') (st_fields m') =
          take i (contents (field_cells st) (field_arrays st) (st_fields m)) @
          RemoveField_loop key (drop i (contents (field_cells st) (field_arrays st) (st_fields m)))"
proof (induction ps arbitrary: i)
  case Nil
  note w0 = wf_sliceD [OF w]
  let ?C = "contents (field_cells st) (field_arrays st) (st_fields m)"
  have lc: "length ?C = len (st_fields m)" using w0(2) by (simp add: contents_def)
  have i: "i = len (st_fields m)" using Nil w0(2) by simp
  show ?case using w i lc by (simp add: footprint_refl)
next
  case (Cons p rest)
  note w0 = wf_sliceD [OF w]
  let ?cells = "field_cells st" and ?arrs = "field_arrays st" and ?s = "st_fields m"
  let ?C = "contents ?cells ?arrs ?s"
  from drop_eq_ConsD [OF Cons.prems(1)] w0(2)
  have i: "i < len ?s" and p: "p = elems ?arrs ?s ! i" and rest: "rest = drop (Suc i) (elems ?arrs ?s)"
    by simp_all
  have lc: "length ?C = len ?s" using w0(2) by (simp add: contents_def)
  define tag where "tag = ?C ! i"
  have ld: "load ?cells p = Some tag" unfolding p tag_def using w i by (rule load_elem)
  have dC: "drop i ?C = tag # drop (Suc i) ?C"
    using i lc by (simp add: tag_def Cons_nth_drop_Suc)
  have tC: "take (Suc i) ?C = take i ?C @ [tag]"
    using i lc by (simp add: tag_def take_Suc_conv_app_nth)
  show ?case
  proof (cases "FKey tag = key")
    case True
    from remove_effect [OF w i] obtain arrs1 arrs2 s' where
      c1: "copy_go ?arrs ?s i (Suc i) = Some arrs1"
      and c2: "index_set arrs1 ?s (len ?s - 1) None = Some arrs2"
      and c3: "drop_last ?s = Some s'"
      and w': "wf_slice ?cells arrs2 s'"
      and f: "footprint ?cells ?arrs ?s ?cells arrs2 s'"
      and c: "contents ?cells arrs2 s' = take i ?C @ drop (Suc i) ?C"
      by blast
    have r: "RemoveField_st_loop st m key i (p # rest) =
               Some (st\<lparr>field_arrays := arrs2\<rparr>, m\<lparr>st_fields := s'\<rparr>)"
      using ld True c1 c2 c3 by simp
    have "take i ?C @ drop (Suc i) ?C = take i ?C @ RemoveField_loop key (drop i ?C)"
      using True by (simp add: dC)
    then show ?thesis unfolding r using w' f c by simp
  next
    case False
    have "RemoveField_st_loop st m key i (p # rest) = RemoveField_st_loop st m key (Suc i) rest"
      using ld False by simp
    moreover have "take i ?C @ RemoveField_loop key (drop i ?C) =
          take (Suc i) ?C @ RemoveField_loop key (drop (Suc i) ?C)"
      using False by (simp add: dC tC)
    ultimately show ?thesis using Cons.IH [OF rest] i by simp
  qed
qed

lemma AddField_st_loop_effect:
  assumes w: "wf_slice (field_cells st) (field_arrays st) (st_fields m)"
  shows "ps = drop i (elems (field_arrays st) (st_fields m)) \<Longrightarrow> i \<le> len (st_fields m) \<Longrightarrow>
     \<exists>st' m'. AddField_st_loop grow rt st m key val i ps = Some (st', m') \<and>
        st' = st\<lparr>field_cells := field_cells st', field_arrays := field_arrays st'\<rparr> \<and>
        m' = m\<lparr>st_fields := st_fields m'\<rparr> \<and>
        wf_slice (field_cells st') (field_arrays st') (st_fields m') \<and>
        footprint (field_cells st) (field_arrays st) (st_fields m)
          (field_cells st') (field_arrays st') (st_fields m') \<and>
        contents (field_cells st') (field_arrays st') (st_fields m') =
          take i (contents (field_cells st) (field_arrays st) (st_fields m)) @
          AddField_loop rt key val (drop i (contents (field_cells st) (field_arrays st) (st_fields m)))"
proof (induction ps arbitrary: i)
  case Nil
  note w0 = wf_sliceD [OF w]
  let ?C = "contents (field_cells st) (field_arrays st) (st_fields m)"
  let ?new = "\<lparr>FKey = key, FValue = convertField rt val\<rparr>"
  have lc: "length ?C = len (st_fields m)" using w0(2) by (simp add: contents_def)
  have i: "i = len (st_fields m)" using Nil w0(2) by simp
  obtain cells' p where al: "alloc (field_cells st) ?new = (cells', p)"
    by (cases "alloc (field_cells st) ?new")
  obtain arrs' s' where ap: "append_go grow (field_arrays st) (st_fields m) p = (arrs', s')"
    by (cases "append_go grow (field_arrays st) (st_fields m) p")
  have r: "AddField_st_loop grow rt st m key val i [] =
             Some (st\<lparr>field_cells := cells', field_arrays := arrs'\<rparr>, m\<lparr>st_fields := s'\<rparr>)"
    using al ap by simp
  from push_effect [OF w al ap] show ?case
    unfolding r using i lc by simp
next
  case (Cons p rest)
  note w0 = wf_sliceD [OF w]
  let ?cells = "field_cells st" and ?arrs = "field_arrays st" and ?s = "st_fields m"
  let ?C = "contents ?cells ?arrs ?s"
  let ?new = "\<lparr>FKey = key, FValue = convertField rt val\<rparr>"
  from drop_eq_ConsD [OF Cons.prems(1)] w0(2)
  have i: "i < len ?s" and p: "p = elems ?arrs ?s ! i" and rest: "rest = drop (Suc i) (elems ?arrs ?s)"
    by simp_all
  have lc: "length ?C = len ?s" using w0(2) by (simp add: contents_def)
  define field where "field = ?C ! i"
  have ld: "load ?cells p = Some field" unfolding p field_def using w i by (rule load_elem)
  have dC: "drop i ?C = field # drop (Suc i) ?C"
    using i lc by (simp add: field_def Cons_nth_drop_Suc)
  have tC: "take (Suc i) ?C = take i ?C @ [field]"
    using i lc by (simp add: field_def take_Suc_conv_app_nth)
  show ?case
  proof (cases "key = FKey field")
    case True
    obtain cells' q where al: "alloc ?cells ?new = (cells', q)"
      by (cases "alloc ?cells ?new")
    from replace_effect [OF w i al] obtain arrs' where
      c1: "index_set ?arrs ?s i q = Some arrs'"
      and w': "wf_slice cells' arrs' ?s"
      and f: "footprint ?cells ?arrs ?s cells' arrs' ?s"
      and c: "contents cells' arrs' ?s = ?C[i := ?new]"
      by blast
    have r: "AddField_st_loop grow rt st m key val i (p # rest) =
               Some (st\<lparr>field_cells := cells', field_arrays := arrs'\<rparr>, m)"
      using ld True al c1 by simp
    have "?C[i := ?new] = take i ?C @ AddField_loop rt key val (drop i ?C)"
      using True i lc by (simp add: dC upd_conv_take_nth_drop)
    then show ?thesis unfolding r using w' f c by simp
  next
    case False
    have "AddField_st_loop grow rt st m key val i (p # rest) =
          AddField_st_loop grow rt st m key val (Suc i) rest"
      using ld False by simp
    moreover have "take i ?C @ AddField_loop rt key val (drop i ?C) =
          take (Suc i) ?C @ AddField_loop rt key val (drop (Suc i) ?C)"
      using False by (simp add: dC tC)
    ultimately show ?thesis using Cons.IH [OF rest] i by simp
  qed
qed

text \<open>
  The loops of \<open>Copy\<close> fill the new array from \<open>i\<close> on with pointers to new structs,
  one for each element, equal to the struct the element points to.
\<close>

lemma Copy_tags_loop_effect:
  "in_bounds (tag_arrays st) dst \<Longrightarrow> i + length ps \<le> len dst \<Longrightarrow>
   (\<And>p. p \<in> set ps \<Longrightarrow> \<exists>q<length (tag_cells st). p = Some q) \<Longrightarrow>
   \<exists>st'. Copy_tags_loop st dst i ps = Some st' \<and>
     st' = st\<lparr>tag_cells := tag_cells st', tag_arrays := tag_arrays st'\<rparr> \<and>
     tag_cells st' = tag_cells st @ map (\<lambda>p. tag_cells st ! the p) ps \<and>
     in_bounds (tag_arrays st') dst \<and>
     elems (tag_arrays st') dst =
       take i (elems (tag_arrays st) dst) @
       map Some [length (tag_cells st) ..< length (tag_cells st) + length ps] @
       drop (i + length ps) (elems (tag_arrays st) dst) \<and>
     grown (array dst) (tag_arrays st) (tag_arrays st') \<and>
     length (tag_arrays st') = length (tag_arrays st)"
proof (induction ps arbitrary: st i)
  case Nil
  then show ?case by (simp add: grown_refl)
next
  case (Cons p rest)
  let ?cells = "tag_cells st" and ?arrs = "tag_arrays st"
  let ?n = "length ?cells"
  from Cons.prems(3) [of p] obtain q where q: "q < ?n" "p = Some q" by auto
  define tag where "tag = ?cells ! q"
  have ld: "load ?cells p = Some tag" using q by (simp add: load_def tag_def)
  have al: "alloc ?cells \<lparr>Key = Key tag, Value = Value tag\<rparr> = (?cells @ [tag], Some ?n)"
    by (simp add: alloc_def)
  have i: "i < len dst" using Cons.prems(2) by simp
  from index_set_effect [OF Cons.prems(1) i, of "Some ?n"] obtain arrs1 where
    c1: "index_set ?arrs dst i (Some ?n) = Some arrs1" and b1: "in_bounds arrs1 dst"
    and e1: "elems arrs1 dst = (elems ?arrs dst)[i := Some ?n]"
    and g1: "grown (array dst) ?arrs arrs1" and l1: "length arrs1 = length ?arrs"
    by blast
  define st1 where "st1 = st\<lparr>tag_cells := ?cells @ [tag], tag_arrays := arrs1\<rparr>"
  have r: "Copy_tags_loop st dst i (p # rest) = Copy_tags_loop st1 dst (Suc i) rest"
    using ld al c1 by (simp add: st1_def)
  have v1: "\<exists>q<length (tag_cells st1). p' = Some q" if "p' \<in> set rest" for p'
    using Cons.prems(3) [of p'] that by (auto simp: st1_def)
  have b1': "in_bounds (tag_arrays st1) dst" using b1 by (simp add: st1_def)
  have i1: "Suc i + length rest \<le> len dst" using Cons.prems(2) by simp
  from Cons.IH [OF b1' i1 v1] obtain st' where
    c: "Copy_tags_loop st1 dst (Suc i) rest = Some st'"
    and s': "st' = st1\<lparr>tag_cells := tag_cells st', tag_arrays := tag_arrays st'\<rparr>"
    and cs: "tag_cells st' = tag_cells st1 @ map (\<lambda>p. tag_cells st1 ! the p) rest"
    and b': "in_bounds (tag_arrays st') dst"
    and e': "elems (tag_arrays st') dst =
       take (Suc i) (elems (tag_arrays st1) dst) @
       map Some [length (tag_cells st1) ..< length (tag_cells st1) + length rest] @
       drop (Suc i + length rest) (elems (tag_arrays st1) dst)"
    and g': "grown (array dst) (tag_arrays st1) (tag_arrays st')"
    and l': "length (tag_arrays st') = length (tag_arrays st1)"
    by blast
  have le: "length (elems ?arrs dst) = len dst" using Cons.prems(1) by (rule length_elems)
  have m: "map (\<lambda>p. (?cells @ [tag]) ! the p) rest = map (\<lambda>p. ?cells ! the p) rest"
    by (rule deref_cong) (use Cons.prems(3) in \<open>auto simp: nth_append\<close>)
  have 1: "st' = st\<lparr>tag_cells := tag_cells st', tag_arrays := tag_arrays st'\<rparr>"
    using s' by (simp add: st1_def)
  have 2: "tag_cells st' = ?cells @ map (\<lambda>p. ?cells ! the p) (p # rest)"
    using cs m q by (simp add: st1_def tag_def)
  have t: "take (Suc i) ((elems ?arrs dst)[i := Some ?n]) = take i (elems ?arrs dst) @ [Some ?n]"
    using i le by (simp add: take_Suc_conv_app_nth)
  have "?n < ?n + length (p # rest)" by simp
  then have "[?n ..< ?n + length (p # rest)] = ?n # [Suc ?n ..< ?n + length (p # rest)]"
    by (rule upt_conv_Cons)
  moreover have "?n + length (p # rest) = Suc ?n + length rest" by simp
  ultimately have u: "[?n ..< ?n + length (p # rest)] = ?n # [Suc ?n ..< Suc ?n + length rest]"
    by (simp only:)
  have 3: "elems (tag_arrays st') dst =
       take i (elems ?arrs dst) @ map Some [?n ..< ?n + length (p # rest)] @
       drop (i + length (p # rest)) (elems ?arrs dst)"
    unfolding e' u using t e1 by (simp add: st1_def)
  have "grown (array dst) arrs1 (tag_arrays st')" using g' by (simp add: st1_def)
  with g1 have 4: "grown (array dst) ?arrs (tag_arrays st')" by (rule grown_trans) simp
  have 5: "length (tag_arrays st') = length ?arrs" using l' l1 by (simp add: st1_def)
  show ?case unfolding r c using 1 2 b' 3 4 5 by simp
qed

lemma Copy_fields_loop_effect:
  "in_bounds (field_arrays st) dst \<Longrightarrow> i + length ps \<le> len dst \<Longrightarrow>
   (\<And>p. p \<in> set ps \<Longrightarrow> \<exists>q<length (field_cells st). p = Some q) \<Longrightarrow>
   \<exists>st'. Copy_fields_loop st dst i ps = Some st' \<and>
     st' = st\<lparr>field_cells := field_cells st', field_arrays := field_arrays st'\<rparr> \<and>
     field_cells st' = field_cells st @ map (\<lambda>p. field_cells st ! the p) ps \<and>
     in_bounds (field_arrays st') dst \<and>
     elems (field_arrays st') dst =
       take i (elems (field_arrays st) dst) @
       map Some [length (field_cells st) ..< length (field_cells st) + length ps] @
       drop (i + length ps) (elems (field_arrays st) dst) \<and>
     grown (array dst) (field_arrays st) (field_arrays st') \<and>
     length (field_arrays st') = length (field_arrays st)"
proof (induction ps arbitrary: st i)
  case Nil
  then show ?case by (simp add: grown_refl)
next
  case (Cons p rest)
  let ?cells = "field_cells st" and ?arrs = "field_arrays st"
  let ?n = "length ?cells"
  from Cons.prems(3) [of p] obtain q where q: "q < ?n" "p = Some q" by auto
  define tag where "tag = ?cells ! q"
  have ld: "load ?cells p = Some tag" using q by (simp add: load_def tag_def)
  have al: "alloc ?cells \<lparr>FKey = FKey tag, FValue = FValue tag\<rparr> = (?cells @ [tag], Some ?n)"
    by (simp add: alloc_def)
  have i: "i < len dst" using Cons.prems(2) by simp
  from index_set_effect [OF Cons.prems(1) i, of "Some ?n"] obtain arrs1 where
    c1: "index_set ?arrs dst i (Some ?n) = Some arrs1" and b1: "in_bounds arrs1 dst"
    and e1: "elems arrs1 dst = (elems ?arrs dst)[i := Some ?n]"
    and g1: "grown (array dst) ?arrs arrs1" and l1: "length arrs1 = length ?arrs"
    by blast
  define st1 where "st1 = st\<lparr>field_cells := ?cells @ [tag], field_arrays := arrs1\<rparr>"
  have r: "Copy_fields_loop st dst i (p # rest) = Copy_fields_loop st1 dst (Suc i) rest"
    using ld al c1 by (simp add: st1_def)
  have v1: "\<exists>q<length (field_cells st1). p' = Some q" if "p' \<in> set rest" for p'
    using Cons.prems(3) [of p'] that by (auto simp: st1_def)
  have b1': "in_bounds (field_arrays st1) dst" using b1 by (simp add: st1_def)
  have i1: "Suc i + length rest \<le> len dst" using Cons.prems(2) by simp
  from Cons.IH [OF b1' i1 v1] obtain st' where
    c: "Copy_fields_loop st1 dst (Suc i) rest = Some st'"
    and s': "st' = st1\<lparr>field_cells := field_cells st', field_arrays := field_arrays st'\<rparr>"
    and cs: "field_cells st' = field_cells st1 @ map (\<lambda>p. field_cells st1 ! the p) rest"
    and b': "in_bounds (field_arrays st') dst"
    and e': "elems (field_arrays st') dst =
       take (Suc i) (elems (field_arrays st1) dst) @
       map Some [length (field_cells st1) ..< length (field_cells st1) + length rest] @
       drop (Suc i + length rest) (elems (field_arrays st1) dst)"
    and g': "grown (array dst) (field_arrays st1) (field_arrays st')"
    and l': "length (field_arrays st') = length (field_arrays st1)"
    by blast
  have le: "length (elems ?arrs dst) = len dst" using Cons.prems(1) by (rule length_elems)
  have m: "map (\<lambda>p. (?cells @ [tag]) ! the p) rest = map (\<lambda>p. ?cells ! the p) rest"
    by (rule deref_cong) (use Cons.prems(3) in \<open>auto simp: nth_append\<close>)
  have 1: "st' = st\<lparr>field_cells := field_cells st', field_arrays := field_arrays st'\<rparr>"
    using s' by (simp add: st1_def)
  have 2: "field_cells st' = ?cells @ map (\<lambda>p. ?cells ! the p) (p # rest)"
    using cs m q by (simp add: st1_def tag_def)
  have t: "take (Suc i) ((elems ?arrs dst)[i := Some ?n]) = take i (elems ?arrs dst) @ [Some ?n]"
    using i le by (simp add: take_Suc_conv_app_nth)
  have "?n < ?n + length (p # rest)" by simp
  then have "[?n ..< ?n + length (p # rest)] = ?n # [Suc ?n ..< ?n + length (p # rest)]"
    by (rule upt_conv_Cons)
  moreover have "?n + length (p # rest) = Suc ?n + length rest" by simp
  ultimately have u: "[?n ..< ?n + length (p # rest)] = ?n # [Suc ?n ..< Suc ?n + length rest]"
    by (simp only:)
  have 3: "elems (field_arrays st') dst =
       take i (elems ?arrs dst) @ map Some [?n ..< ?n + length (p # rest)] @
       drop (i + length (p # rest)) (elems ?arrs dst)"
    unfolding e' u using t e1 by (simp add: st1_def)
  have "grown (array dst) arrs1 (field_arrays st')" using g' by (simp add: st1_def)
  with g1 have 4: "grown (array dst) ?arrs (field_arrays st')" by (rule grown_trans) simp
  have 5: "length (field_arrays st') = length ?arrs" using l' l1 by (simp add: st1_def)
  show ?case unfolding r c using 1 2 b' 3 4 5 by simp
qed

lemma nth_append_upt:
  "map (\<lambda>k. (xs @ ys) ! k) [length xs ..< length xs + length ys] = ys"
proof (rule nth_equalityI)
  show "length (map (\<lambda>k. (xs @ ys) ! k) [length xs ..< length xs + length ys]) = length ys"
    by simp
  fix j assume "j < length (map (\<lambda>k. (xs @ ys) ! k) [length xs ..< length xs + length ys])"
  then have "j < length ys" by simp
  then show "map (\<lambda>k. (xs @ ys) ! k) [length xs ..< length xs + length ys] ! j = ys ! j"
    by (simp add: nth_append)
qed

lemma clone_effect:
  assumes w: "wf_slice cells arrs s"
    and b: "in_bounds arrs' ts"
    and a: "array ts = Some (length arrs)"
    and e: "elems arrs' ts = map Some [length cells ..< length cells + len s]"
    and g: "grown (Some (length arrs)) (arrs @ [a0]) arrs'"
    and c: "cells' = cells @ contents cells arrs s"
  shows "wf_slice cells' arrs' ts \<and> contents cells' arrs' ts = contents cells arrs s \<and>
         footprint cells arrs \<lparr>array = None, len = 0\<rparr> cells' arrs' ts"
proof -
  note w0 = wf_sliceD [OF w]
  let ?C = "contents cells arrs s"
  have lc: "length ?C = len s" using w0(2) by (simp add: contents_def)
  have w': "wf_slice cells' arrs' ts"
  proof (rule wf_sliceI [OF b])
    show "distinct (elems arrs' ts)" unfolding e by (simp add: distinct_map)
    show "\<exists>q<length cells'. p = Some q" if "p \<in> set (elems arrs' ts)" for p
      using that unfolding e c by (auto simp: lc)
  qed
  have "contents cells' arrs' ts =
        map (\<lambda>k. (cells @ ?C) ! k) [length cells ..< length cells + length ?C]"
    by (simp add: contents_def e c w0(2) comp_def)
  also have "\<dots> = ?C" by (rule nth_append_upt)
  finally have c': "contents cells' arrs' ts = ?C" .
  have g': "grown None arrs arrs'"
    using g by (auto simp: grown_def nth_append)
  have f: "footprint cells arrs \<lparr>array = None, len = 0\<rparr> cells' arrs' ts"
    unfolding footprint_def using g' a e c by (auto simp: elems_def nth_append)
  from w' c' f show ?thesis by simp
qed

lemma apart_nil: "apart_slices arrs \<lparr>array = None, len = 0\<rparr> s0"
  by (simp add: apart_slices_def elems_def)

subsection \<open>The methods in the store do what they do on values\<close>

lemma apart_sym: "apart st m1 m2 \<Longrightarrow> apart st m2 m1"
  by (simp add: apart_def apart_slices_sym)

lemma tags_step:
  assumes w: "wf_metric st m"
    and st': "st' = st\<lparr>tag_cells := tag_cells st', tag_arrays := tag_arrays st'\<rparr>"
    and m': "m' = m\<lparr>st_tags := st_tags m'\<rparr>"
    and w': "wf_slice (tag_cells st') (tag_arrays st') (st_tags m')"
    and f: "footprint (tag_cells st) (tag_arrays st) (st_tags m)
              (tag_cells st') (tag_arrays st') (st_tags m')"
  shows "wf_metric st' m' \<and>
         view st' m' = (view st m)\<lparr>tags := contents (tag_cells st') (tag_arrays st') (st_tags m')\<rparr> \<and>
         (\<forall>m0. wf_metric st m0 \<and> apart st m m0 \<longrightarrow>
               wf_metric st' m0 \<and> view st' m0 = view st m0 \<and> apart st' m' m0)"
proof -
  have fc: "field_cells st' = field_cells st" "field_arrays st' = field_arrays st"
    by (subst st', simp)+
  have mc: "st_fields m' = st_fields m" "st_name m' = st_name m" "st_tm m' = st_tm m"
    "st_tp m' = st_tp m" "st_aggregate m' = st_aggregate m"
    by (subst m', simp)+
  have 1: "wf_metric st' m'" using w w' by (simp add: wf_metric_def fc mc)
  have 2: "view st' m' =
      (view st m)\<lparr>tags := contents (tag_cells st') (tag_arrays st') (st_tags m')\<rparr>"
    by (simp add: view_def fc mc)
  have 3: "wf_metric st' m0 \<and> view st' m0 = view st m0 \<and> apart st' m' m0"
    if w0: "wf_metric st m0" and a0: "apart st m m0" for m0
  proof -
    have "wf_slice (tag_cells st) (tag_arrays st) (st_tags m0)" using w0 by (simp add: wf_metric_def)
    moreover have "apart_slices (tag_arrays st) (st_tags m) (st_tags m0)"
      using a0 by (simp add: apart_def)
    ultimately have "wf_slice (tag_cells st') (tag_arrays st') (st_tags m0) \<and>
      contents (tag_cells st') (tag_arrays st') (st_tags m0) =
        contents (tag_cells st) (tag_arrays st) (st_tags m0) \<and>
      apart_slices (tag_arrays st') (st_tags m') (st_tags m0)"
      by (rule footprint_frame [OF f])
    then show ?thesis using w0 a0 by (simp add: wf_metric_def view_def apart_def fc mc)
  qed
  from 1 2 3 show ?thesis by blast
qed

lemma fields_step:
  assumes w: "wf_metric st m"
    and st': "st' = st\<lparr>field_cells := field_cells st', field_arrays := field_arrays st'\<rparr>"
    and m': "m' = m\<lparr>st_fields := st_fields m'\<rparr>"
    and w': "wf_slice (field_cells st') (field_arrays st') (st_fields m')"
    and f: "footprint (field_cells st) (field_arrays st) (st_fields m)
              (field_cells st') (field_arrays st') (st_fields m')"
  shows "wf_metric st' m' \<and>
         view st' m' =
           (view st m)\<lparr>fields_m := contents (field_cells st') (field_arrays st') (st_fields m')\<rparr> \<and>
         (\<forall>m0. wf_metric st m0 \<and> apart st m m0 \<longrightarrow>
               wf_metric st' m0 \<and> view st' m0 = view st m0 \<and> apart st' m' m0)"
proof -
  have fc: "tag_cells st' = tag_cells st" "tag_arrays st' = tag_arrays st"
    by (subst st', simp)+
  have mc: "st_tags m' = st_tags m" "st_name m' = st_name m" "st_tm m' = st_tm m"
    "st_tp m' = st_tp m" "st_aggregate m' = st_aggregate m"
    by (subst m', simp)+
  have 1: "wf_metric st' m'" using w w' by (simp add: wf_metric_def fc mc)
  have 2: "view st' m' =
      (view st m)\<lparr>fields_m := contents (field_cells st') (field_arrays st') (st_fields m')\<rparr>"
    by (simp add: view_def fc mc)
  have 3: "wf_metric st' m0 \<and> view st' m0 = view st m0 \<and> apart st' m' m0"
    if w0: "wf_metric st m0" and a0: "apart st m m0" for m0
  proof -
    have "wf_slice (field_cells st) (field_arrays st) (st_fields m0)"
      using w0 by (simp add: wf_metric_def)
    moreover have "apart_slices (field_arrays st) (st_fields m) (st_fields m0)"
      using a0 by (simp add: apart_def)
    ultimately have "wf_slice (field_cells st') (field_arrays st') (st_fields m0) \<and>
      contents (field_cells st') (field_arrays st') (st_fields m0) =
        contents (field_cells st) (field_arrays st) (st_fields m0) \<and>
      apart_slices (field_arrays st') (st_fields m') (st_fields m0)"
      by (rule footprint_frame [OF f])
    then show ?thesis using w0 a0 by (simp add: wf_metric_def view_def apart_def fc mc)
  qed
  from 1 2 3 show ?thesis by blast
qed

text \<open>
  Each method, on a well-formed record, returns without a panic, leaves a well-formed
  record that stands for what the method on values makes of the view, and leaves
  every well-formed record apart from it as it was, and apart from it.
\<close>

lemma AddTag_st_refines:
  assumes w: "wf_metric st m"
  shows "\<exists>st' m'. AddTag_st grow st m key val = Some (st', m') \<and> wf_metric st' m' \<and>
           view st' m' = AddTag (view st m) key val \<and>
           (\<forall>m0. wf_metric st m0 \<and> apart st m m0 \<longrightarrow>
                 wf_metric st' m0 \<and> view st' m0 = view st m0 \<and> apart st' m' m0)"
proof -
  have ws: "wf_slice (tag_cells st) (tag_arrays st) (st_tags m)" using w by (simp add: wf_metric_def)
  from AddTag_st_loop_effect [OF ws, of "elems (tag_arrays st) (st_tags m)" 0 grow key val]
  obtain st' m' where r: "AddTag_st grow st m key val = Some (st', m')"
    and st': "st' = st\<lparr>tag_cells := tag_cells st', tag_arrays := tag_arrays st'\<rparr>"
    and m': "m' = m\<lparr>st_tags := st_tags m'\<rparr>"
    and w': "wf_slice (tag_cells st') (tag_arrays st') (st_tags m')"
    and f: "footprint (tag_cells st) (tag_arrays st) (st_tags m)
              (tag_cells st') (tag_arrays st') (st_tags m')"
    and c: "contents (tag_cells st') (tag_arrays st') (st_tags m') =
              AddTag_loop key val (contents (tag_cells st) (tag_arrays st) (st_tags m))"
    unfolding AddTag_st_def by auto
  have "(view st m)\<lparr>tags := contents (tag_cells st') (tag_arrays st') (st_tags m')\<rparr> =
        AddTag (view st m) key val"
    by (simp add: c AddTag_def view_def)
  with tags_step [OF w st' m' w' f] r show ?thesis by auto
qed

lemma RemoveTag_st_refines:
  assumes w: "wf_metric st m"
  shows "\<exists>st' m'. RemoveTag_st st m key = Some (st', m') \<and> wf_metric st' m' \<and>
           view st' m' = RemoveTag (view st m) key \<and>
           (\<forall>m0. wf_metric st m0 \<and> apart st m m0 \<longrightarrow>
                 wf_metric st' m0 \<and> view st' m0 = view st m0 \<and> apart st' m' m0)"
proof -
  have ws: "wf_slice (tag_cells st) (tag_arrays st) (st_tags m)" using w by (simp add: wf_metric_def)
  from RemoveTag_st_loop_effect [OF ws, of "elems (tag_arrays st) (st_tags m)" 0 key]
  obtain st' m' where r: "RemoveTag_st st m key = Some (st', m')"
    and st': "st' = st\<lparr>tag_cells := tag_cells st', tag_arrays := tag_arrays st'\<rparr>"
    and m': "m' = m\<lparr>st_tags := st_tags m'\<rparr>"
    and w': "wf_slice (tag_cells st') (tag_arrays st') (st_tags m')"
    and f: "footprint (tag_cells st) (tag_arrays st) (st_tags m)
              (tag_cells st') (tag_arrays st') (st_tags m')"
    and c: "contents (tag_cells st') (tag_arrays st') (st_tags m') =
              RemoveTag_loop key (contents (tag_cells st) (tag_arrays st) (st_tags m))"
    unfolding RemoveTag_st_def by auto
  have "(view st m)\<lparr>tags := contents (tag_cells st') (tag_arrays st') (st_tags m')\<rparr> =
        RemoveTag (view st m) key"
    by (simp add: c RemoveTag_def view_def)
  with tags_step [OF w st' m' w' f] r show ?thesis by auto
qed

lemma AddField_st_refines:
  assumes w: "wf_metric st m"
  shows "\<exists>st' m'. AddField_st grow rt st m key val = Some (st', m') \<and> wf_metric st' m' \<and>
           view st' m' = AddField rt (view st m) key val \<and>
           (\<forall>m0. wf_metric st m0 \<and> apart st m m0 \<longrightarrow>
                 wf_metric st' m0 \<and> view st' m0 = view st m0 \<and> apart st' m' m0)"
proof -
  have ws: "wf_slice (field_cells st) (field_arrays st) (st_fields m)"
    using w by (simp add: wf_metric_def)
  from AddField_st_loop_effect [OF ws, of "elems (field_arrays st) (st_fields m)" 0 grow rt key val]
  obtain st' m' where r: "AddField_st grow rt st m key val = Some (st', m')"
    and st': "st' = st\<lparr>field_cells := field_cells st', field_arrays := field_arrays st'\<rparr>"
    and m': "m' = m\<lparr>st_fields := st_fields m'\<rparr>"
    and w': "wf_slice (field_cells st') (field_arrays st') (st_fields m')"
    and f: "footprint (field_cells st) (field_arrays st) (st_fields m)
              (field_cells st') (field_arrays st') (st_fields m')"
    and c: "contents (field_cells st') (field_arrays st') (st_fields m') =
              AddField_loop rt key val (contents (field_cells st) (field_arrays st) (st_fields m))"
    unfolding AddField_st_def by auto
  have "(view st m)\<lparr>fields_m := contents (field_cells st') (field_arrays st') (st_fields m')\<rparr> =
        AddField rt (view st m) key val"
    by (simp add: c AddField_def view_def)
  with fields_step [OF w st' m' w' f] r show ?thesis by auto
qed

lemma RemoveField_st_refines:
  assumes w: "wf_metric st m"
  shows "\<exists>st' m'. RemoveField_st st m key = Some (st', m') \<and> wf_metric st' m' \<and>
           view st' m' = RemoveField (view st m) key \<and>
           (\<forall>m0. wf_metric st m0 \<and> apart st m m0 \<longrightarrow>
                 wf_metric st' m0 \<and> view st' m0 = view st m0 \<and> apart st' m' m0)"
proof -
  have ws: "wf_slice (field_cells st) (field_arrays st) (st_fields m)"
    using w by (simp add: wf_metric_def)
  from RemoveField_st_loop_effect [OF ws, of "elems (field_arrays st) (st_fields m)" 0 key]
  obtain st' m' where r: "RemoveField_st st m key = Some (st', m')"
    and st': "st' = st\<lparr>field_cells := field_cells st', field_arrays := field_arrays st'\<rparr>"
    and m': "m' = m\<lparr>st_fields := st_fields m'\<rparr>"
    and w': "wf_slice (field_cells st') (field_arrays st') (st_fields m')"
    and f: "footprint (field_cells st) (field_arrays st) (st_fields m)
              (field_cells st') (field_arrays st') (st_fields m')"
    and c: "contents (field_cells st') (field_arrays st') (st_fields m') =
              RemoveField_loop key (contents (field_cells st) (field_arrays st) (st_fields m))"
    unfolding RemoveField_st_def by auto
  have "(view st m)\<lparr>fields_m := contents (field_cells st') (field_arrays st') (st_fields m')\<rparr> =
        RemoveField (view st m) key"
    by (simp add: c RemoveField_def view_def)
  with fields_step [OF w st' m' w' f] r show ?thesis by auto
qed

lemma SetTime_st_refines:
  assumes w: "wf_metric st m"
  shows "\<exists>st' m'. SetTime_st st m t = Some (st', m') \<and> wf_metric st' m' \<and>
           view st' m' = SetTime (view st m) t \<and>
           (\<forall>m0. wf_metric st m0 \<and> apart st m m0 \<longrightarrow>
                 wf_metric st' m0 \<and> view st' m0 = view st m0 \<and> apart st' m' m0)"
  using w by (simp add: SetTime_st_def SetTime_def wf_metric_def view_def apart_def)

lemma perform_st_refines:
  assumes w: "wf_metric st m"
  shows "\<exists>st' m'. perform_st grow rt (st, m) c = Some (st', m') \<and> wf_metric st' m' \<and>
           view st' m' = perform rt (view st m) c \<and>
           (\<forall>m0. wf_metric st m0 \<and> apart st m m0 \<longrightarrow>
                 wf_metric st' m0 \<and> view st' m0 = view st m0 \<and> apart st' m' m0)"
proof (cases c)
  case (CallAddTag k v)
  then show ?thesis using AddTag_st_refines [OF w, of grow k v] by simp
next
  case (CallRemoveTag k)
  then show ?thesis using RemoveTag_st_refines [OF w, of k] by simp
next
  case (CallAddField k v)
  then show ?thesis using AddField_st_refines [OF w, of grow rt k v] by simp
next
  case (CallRemoveField k)
  then show ?thesis using RemoveField_st_refines [OF w, of k] by simp
next
  case (CallSetTime t)
  then show ?thesis using SetTime_st_refines [OF w, of t] by simp
qed

lemma run_st_refines:
  "wf_metric st m \<Longrightarrow>
   \<exists>st' m'. run_st grow rt (st, m) cs = Some (st', m') \<and> wf_metric st' m' \<and>
     view st' m' = run rt (view st m) cs \<and>
     (\<forall>m0. wf_metric st m0 \<and> apart st m m0 \<longrightarrow>
           wf_metric st' m0 \<and> view st' m0 = view st m0 \<and> apart st' m' m0)"
proof (induction cs arbitrary: st m)
  case Nil
  then show ?case by (simp add: run_def)
next
  case (Cons c cs)
  from perform_st_refines [OF Cons.prems, of grow rt c] obtain st1 m1 where
    p: "perform_st grow rt (st, m) c = Some (st1, m1)" and w1: "wf_metric st1 m1"
    and v1: "view st1 m1 = perform rt (view st m) c"
    and f1: "\<And>m0. wf_metric st m0 \<Longrightarrow> apart st m m0 \<Longrightarrow>
                 wf_metric st1 m0 \<and> view st1 m0 = view st m0 \<and> apart st1 m1 m0"
    by blast
  from Cons.IH [OF w1] obtain st' m' where
    r: "run_st grow rt (st1, m1) cs = Some (st', m')" and w': "wf_metric st' m'"
    and v': "view st' m' = run rt (view st1 m1) cs"
    and f': "\<And>m0. wf_metric st1 m0 \<Longrightarrow> apart st1 m1 m0 \<Longrightarrow>
                 wf_metric st' m0 \<and> view st' m0 = view st1 m0 \<and> apart st' m' m0"
    by blast
  have "run_st grow rt (st, m) (c # cs) = Some (st', m')" using p r by simp
  moreover have "view st' m' = run rt (view st m) (c # cs)" using v' v1 by (simp add: run_def)
  moreover have "wf_metric st' m0 \<and> view st' m0 = view st m0 \<and> apart st' m' m0"
    if "wf_metric st m0" "apart st m m0" for m0
    using f1 [OF that] f' [of m0] by auto
  ultimately show ?case using w' by blast
qed

subsection \<open>Copy\<close>

lemma elems_append_arrays:
  "in_bounds arrs s \<Longrightarrow> elems (arrs @ [a0]) s = elems arrs s"
  by (auto simp: in_bounds_def elems_def nth_append split: option.splits)

lemma Copy_st_effect:
  assumes w: "wf_metric st m"
  shows "\<exists>st' m2. Copy_st st m = Some (st', m2) \<and> wf_metric st' m2 \<and> view st' m2 = view st m \<and>
           (\<forall>m0. wf_metric st m0 \<longrightarrow> wf_metric st' m0 \<and> view st' m0 = view st m0 \<and> apart st' m2 m0)"
proof -
  let ?tc = "tag_cells st" and ?ta = "tag_arrays st" and ?s = "st_tags m"
  let ?fc = "field_cells st" and ?fa = "field_arrays st" and ?r = "st_fields m"
  have wt: "wf_slice ?tc ?ta ?s" and wfd: "wf_slice ?fc ?fa ?r" using w by (simp_all add: wf_metric_def)
  note t0 = wf_sliceD [OF wt] and f0 = wf_sliceD [OF wfd]
  define ts where "ts = \<lparr>array = Some (length ?ta), len = len ?s\<rparr>"
  define fs where "fs = \<lparr>array = Some (length ?fa), len = len ?r\<rparr>"
  define st1 where "st1 = st\<lparr>tag_arrays := ?ta @ [replicate (len ?s) None],
                              field_arrays := ?fa @ [replicate (len ?r) None]\<rparr>"
  define m2 where "m2 = \<lparr>st_name = st_name m, st_tags = ts, st_fields = fs, st_tm = st_tm m,
                st_tp = st_tp m, st_aggregate = st_aggregate m\<rparr>"
  have h1: "tag_cells st1 = ?tc" "tag_arrays st1 = ?ta @ [replicate (len ?s) None]"
    by (simp_all add: st1_def)
  have e1: "elems (tag_arrays st1) ?s = elems ?ta ?s"
    using t0(1) by (simp add: st1_def elems_append_arrays)
  have bt: "in_bounds (tag_arrays st1) ts" by (simp add: st1_def ts_def in_bounds_def)
  have et: "elems (tag_arrays st1) ts = replicate (len ?s) None"
    by (simp add: st1_def ts_def elems_def)
  have lt: "0 + length (elems ?ta ?s) \<le> len ts" using t0(2) by (simp add: ts_def)
  have vt: "\<exists>q<length (tag_cells st1). p = Some q" if "p \<in> set (elems ?ta ?s)" for p
    using t0(4) [OF that] by (simp add: st1_def)
  from Copy_tags_loop_effect [OF bt lt vt] obtain st2 where
    c2: "Copy_tags_loop st1 ts 0 (elems ?ta ?s) = Some st2"
    and s2: "st2 = st1\<lparr>tag_cells := tag_cells st2, tag_arrays := tag_arrays st2\<rparr>"
    and tc2: "tag_cells st2 = tag_cells st1 @ map (\<lambda>p. tag_cells st1 ! the p) (elems ?ta ?s)"
    and b2: "in_bounds (tag_arrays st2) ts"
    and e2: "elems (tag_arrays st2) ts =
       take 0 (elems (tag_arrays st1) ts) @
       map Some [length (tag_cells st1) ..< length (tag_cells st1) + length (elems ?ta ?s)] @
       drop (0 + length (elems ?ta ?s)) (elems (tag_arrays st1) ts)"
    and g2: "grown (array ts) (tag_arrays st1) (tag_arrays st2)"
    by blast
  have f2: "field_cells st2 = ?fc" "field_arrays st2 = ?fa @ [replicate (len ?r) None]"
    by (subst s2, simp add: st1_def)+
  have e3: "elems (field_arrays st2) ?r = elems ?fa ?r"
    using f0(1) by (simp add: f2 elems_append_arrays)
  have bf: "in_bounds (field_arrays st2) fs" by (simp add: f2 fs_def in_bounds_def)
  have ef: "elems (?fa @ [replicate (len ?r) None]) fs = replicate (len ?r) None"
    by (simp add: fs_def elems_def)
  have lf: "0 + length (elems ?fa ?r) \<le> len fs" using f0(2) by (simp add: fs_def)
  have vf: "\<exists>q<length (field_cells st2). p = Some q" if "p \<in> set (elems ?fa ?r)" for p
    using f0(4) [OF that] by (simp add: f2)
  from Copy_fields_loop_effect [OF bf lf vf] obtain st3 where
    c3: "Copy_fields_loop st2 fs 0 (elems ?fa ?r) = Some st3"
    and s3: "st3 = st2\<lparr>field_cells := field_cells st3, field_arrays := field_arrays st3\<rparr>"
    and fc3: "field_cells st3 =
                field_cells st2 @ map (\<lambda>p. field_cells st2 ! the p) (elems ?fa ?r)"
    and b3: "in_bounds (field_arrays st3) fs"
    and e4: "elems (field_arrays st3) fs =
       take 0 (elems (field_arrays st2) fs) @
       map Some [length (field_cells st2) ..< length (field_cells st2) + length (elems ?fa ?r)] @
       drop (0 + length (elems ?fa ?r)) (elems (field_arrays st2) fs)"
    and g3: "grown (array fs) (field_arrays st2) (field_arrays st3)"
    by blast
  have t3: "tag_cells st3 = tag_cells st2" "tag_arrays st3 = tag_arrays st2"
    by (subst s3, simp)+
  have tm: "make_slice ?ta (len ?s) (len ?s) = (tag_arrays st1, ts)"
    by (simp add: make_slice_def st1_def ts_def)
  have fm: "make_slice ?fa (len ?r) (len ?r) = (field_arrays st1, fs)"
    by (simp add: make_slice_def st1_def fs_def)
  have st1': "st\<lparr>tag_arrays := tag_arrays st1, field_arrays := field_arrays st1\<rparr> = st1"
    by (simp add: st1_def)
  have r: "Copy_st st m = Some (st3, m2)"
    by (simp add: Copy_st_def tm fm Let_def st1' e1 c2 e3 c3 m2_def)
  have ct: "wf_slice (tag_cells st3) (tag_arrays st3) ts \<and>
      contents (tag_cells st3) (tag_arrays st3) ts = contents ?tc ?ta ?s \<and>
      footprint ?tc ?ta \<lparr>array = None, len = 0\<rparr> (tag_cells st3) (tag_arrays st3) ts"
  proof (rule clone_effect [OF wt])
    show "in_bounds (tag_arrays st3) ts" using b2 by (simp add: t3)
    show "array ts = Some (length ?ta)" by (simp add: ts_def)
    show "elems (tag_arrays st3) ts = map Some [length ?tc ..< length ?tc + len ?s]"
      using e2 t0(2) by (simp add: t3 et h1(1))
    show "grown (Some (length ?ta)) (?ta @ [replicate (len ?s) None]) (tag_arrays st3)"
      using g2 by (simp add: t3 ts_def h1(2))
    show "tag_cells st3 = ?tc @ contents ?tc ?ta ?s"
      using tc2 by (simp add: t3 h1(1) contents_def)
  qed
  have cf: "wf_slice (field_cells st3) (field_arrays st3) fs \<and>
      contents (field_cells st3) (field_arrays st3) fs = contents ?fc ?fa ?r \<and>
      footprint ?fc ?fa \<lparr>array = None, len = 0\<rparr> (field_cells st3) (field_arrays st3) fs"
  proof (rule clone_effect [OF wfd])
    show "in_bounds (field_arrays st3) fs" by (rule b3)
    show "array fs = Some (length ?fa)" by (simp add: fs_def)
    show "elems (field_arrays st3) fs = map Some [length ?fc ..< length ?fc + len ?r]"
      using e4 f0(2) by (simp add: ef f2)
    show "grown (Some (length ?fa)) (?fa @ [replicate (len ?r) None]) (field_arrays st3)"
      using g3 by (simp add: fs_def f2)
    show "field_cells st3 = ?fc @ contents ?fc ?fa ?r"
      using fc3 by (simp add: f2 contents_def)
  qed
  have 1: "wf_metric st3 m2" using ct cf by (simp add: wf_metric_def m2_def)
  have 2: "view st3 m2 = view st m" using ct cf by (simp add: view_def m2_def)
  have 3: "wf_metric st3 m0 \<and> view st3 m0 = view st m0 \<and> apart st3 m2 m0" if w0: "wf_metric st m0" for m0
  proof -
    have "wf_slice ?tc ?ta (st_tags m0)" using w0 by (simp add: wf_metric_def)
    with ct have a: "wf_slice (tag_cells st3) (tag_arrays st3) (st_tags m0) \<and>
        contents (tag_cells st3) (tag_arrays st3) (st_tags m0) = contents ?tc ?ta (st_tags m0) \<and>
        apart_slices (tag_arrays st3) ts (st_tags m0)"
      by (intro footprint_frame [where s = "\<lparr>array = None, len = 0\<rparr>"] apart_nil) auto
    have "wf_slice ?fc ?fa (st_fields m0)" using w0 by (simp add: wf_metric_def)
    with cf have b: "wf_slice (field_cells st3) (field_arrays st3) (st_fields m0) \<and>
        contents (field_cells st3) (field_arrays st3) (st_fields m0) =
          contents ?fc ?fa (st_fields m0) \<and>
        apart_slices (field_arrays st3) fs (st_fields m0)"
      by (intro footprint_frame [where s = "\<lparr>array = None, len = 0\<rparr>"] apart_nil) auto
    from a b show ?thesis by (simp add: wf_metric_def view_def apart_def m2_def)
  qed
  from r 1 2 3 show ?thesis by blast
qed

text \<open>
  Writing through a pointer of one record leaves a well-formed record apart from it
  as it was; and calls on two records that are apart, in any order, do on each what
  its own calls do on values, and leave the two apart.
\<close>

lemma poke_tag_apart:
  assumes w: "wf_metric st a" and ap: "apart st a b"
    and p: "p \<in> set (TagList_st st b)" and k: "poke_tag st p x = Some st'"
  shows "view st' a = view st a \<and> wf_metric st' a"
proof -
  have ws: "wf_slice (tag_cells st) (tag_arrays st) (st_tags a)"
    and wfs: "wf_slice (field_cells st) (field_arrays st) (st_fields a)"
    using w by (simp_all add: wf_metric_def)
  note w0 = wf_sliceD [OF ws]
  from k obtain q where q: "p = Some q" "q < length (tag_cells st)"
    and st': "st' = st\<lparr>tag_cells := (tag_cells st)[q := x]\<rparr>"
    by (auto simp: poke_tag_def poke_def split: option.splits if_splits)
  have dj: "set (elems (tag_arrays st) (st_tags a)) \<inter> set (elems (tag_arrays st) (st_tags b)) = {}"
    using ap by (simp add: apart_def apart_slices_def)
  then have n: "Some q \<notin> set (elems (tag_arrays st) (st_tags a))"
    using p q(1) by (auto simp: TagList_st_def)
  have "map (\<lambda>p. (tag_cells st)[q := x] ! the p) (elems (tag_arrays st) (st_tags a)) =
        map (\<lambda>p. tag_cells st ! the p) (elems (tag_arrays st) (st_tags a))"
  proof (rule deref_cong)
    show "\<exists>r<length (tag_cells st). p' = Some r"
      if "p' \<in> set (elems (tag_arrays st) (st_tags a))" for p'
      using that by (rule w0(4))
    show "(tag_cells st)[q := x] ! r = tag_cells st ! r"
      if "r < length (tag_cells st)" "Some r \<in> set (elems (tag_arrays st) (st_tags a))" for r
    proof -
      have "q \<noteq> r" using that(2) n by auto
      then show ?thesis by simp
    qed
  qed
  then have v: "view st' a = view st a" by (simp add: view_def contents_def st')
  have "wf_slice ((tag_cells st)[q := x]) (tag_arrays st) (st_tags a)"
    using w0 by (intro wf_sliceI) auto
  then have "wf_metric st' a" using wfs by (simp add: wf_metric_def st')
  with v show ?thesis by simp
qed

lemma poke_field_apart:
  assumes w: "wf_metric st a" and ap: "apart st a b"
    and p: "p \<in> set (FieldList_st st b)" and k: "poke_field st p x = Some st'"
  shows "view st' a = view st a \<and> wf_metric st' a"
proof -
  have ws: "wf_slice (field_cells st) (field_arrays st) (st_fields a)"
    and wfs: "wf_slice (tag_cells st) (tag_arrays st) (st_tags a)"
    using w by (simp_all add: wf_metric_def)
  note w0 = wf_sliceD [OF ws]
  from k obtain q where q: "p = Some q" "q < length (field_cells st)"
    and st': "st' = st\<lparr>field_cells := (field_cells st)[q := x]\<rparr>"
    by (auto simp: poke_field_def poke_def split: option.splits if_splits)
  have dj: "set (elems (field_arrays st) (st_fields a)) \<inter>
            set (elems (field_arrays st) (st_fields b)) = {}"
    using ap by (simp add: apart_def apart_slices_def)
  then have n: "Some q \<notin> set (elems (field_arrays st) (st_fields a))"
    using p q(1) by (auto simp: FieldList_st_def)
  have "map (\<lambda>p. (field_cells st)[q := x] ! the p) (elems (field_arrays st) (st_fields a)) =
        map (\<lambda>p. field_cells st ! the p) (elems (field_arrays st) (st_fields a))"
  proof (rule deref_cong)
    show "\<exists>r<length (field_cells st). p' = Some r"
      if "p' \<in> set (elems (field_arrays st) (st_fields a))" for p'
      using that by (rule w0(4))
    show "(field_cells st)[q := x] ! r = field_cells st ! r"
      if "r < length (field_cells st)" "Some r \<in> set (elems (field_arrays st) (st_fields a))" for r
    proof -
      have "q \<noteq> r" using that(2) n by auto
      then show ?thesis by simp
    qed
  qed
  then have v: "view st' a = view st a" by (simp add: view_def contents_def st')
  have "wf_slice ((field_cells st)[q := x]) (field_arrays st) (st_fields a)"
    using w0 by (intro wf_sliceI) auto
  then have "wf_metric st' a" using wfs by (simp add: wf_metric_def st')
  with v show ?thesis by simp
qed

lemma calls_on_Cons:
  "calls_on b ((b', c) # cs) = (if b' = b then c # calls_on b cs else calls_on b cs)"
  by (simp add: calls_on_def)

lemma run_Cons: "run rt m (c # cs) = run rt (perform rt m c) cs"
  by (simp add: run_def)

lemma run_both_refines:
  "wf_metric st m1 \<Longrightarrow> wf_metric st m2 \<Longrightarrow> apart st m1 m2 \<Longrightarrow>
   \<exists>st' m1' m2'. run_both grow rt (st, m1, m2) cs = Some (st', m1', m2') \<and>
     wf_metric st' m1' \<and> wf_metric st' m2' \<and> apart st' m1' m2' \<and>
     view st' m1' = run rt (view st m1) (calls_on False cs) \<and>
     view st' m2' = run rt (view st m2) (calls_on True cs)"
proof (induction cs arbitrary: st m1 m2)
  case Nil
  then show ?case by (simp add: calls_on_def run_def)
next
  case (Cons bc cs)
  obtain b c where bc: "bc = (b, c)" by (cases bc)
  show ?case
  proof (cases b)
    case True
    from perform_st_refines [OF Cons.prems(2), of grow rt c] obtain st1 m2a where
      p: "perform_st grow rt (st, m2) c = Some (st1, m2a)" and w2: "wf_metric st1 m2a"
      and v2: "view st1 m2a = perform rt (view st m2) c"
      and f: "\<And>m0. wf_metric st m0 \<Longrightarrow> apart st m2 m0 \<Longrightarrow>
                 wf_metric st1 m0 \<and> view st1 m0 = view st m0 \<and> apart st1 m2a m0"
      by blast
    from f [OF Cons.prems(1) apart_sym [OF Cons.prems(3)]]
    have w1: "wf_metric st1 m1" and v1: "view st1 m1 = view st m1" and a: "apart st1 m1 m2a"
      by (auto intro: apart_sym)
    from Cons.IH [OF w1 w2 a] obtain st' m1' m2' where
      r: "run_both grow rt (st1, m1, m2a) cs = Some (st', m1', m2')"
      and i: "wf_metric st' m1'" "wf_metric st' m2'" "apart st' m1' m2'"
      "view st' m1' = run rt (view st1 m1) (calls_on False cs)"
      "view st' m2' = run rt (view st1 m2a) (calls_on True cs)"
      by blast
    have "run_both grow rt (st, m1, m2) (bc # cs) = Some (st', m1', m2')"
      using bc True p r by simp
    then show ?thesis using i v1 v2 bc True by (simp add: calls_on_Cons run_Cons)
  next
    case False
    from perform_st_refines [OF Cons.prems(1), of grow rt c] obtain st1 m1a where
      p: "perform_st grow rt (st, m1) c = Some (st1, m1a)" and w1: "wf_metric st1 m1a"
      and v1: "view st1 m1a = perform rt (view st m1) c"
      and f: "\<And>m0. wf_metric st m0 \<Longrightarrow> apart st m1 m0 \<Longrightarrow>
                 wf_metric st1 m0 \<and> view st1 m0 = view st m0 \<and> apart st1 m1a m0"
      by blast
    from f [OF Cons.prems(2) Cons.prems(3)]
    have w2: "wf_metric st1 m2" and v2: "view st1 m2 = view st m2" and a: "apart st1 m1a m2"
      by auto
    from Cons.IH [OF w1 w2 a] obtain st' m1' m2' where
      r: "run_both grow rt (st1, m1a, m2) cs = Some (st', m1', m2')"
      and i: "wf_metric st' m1'" "wf_metric st' m2'" "apart st' m1' m2'"
      "view st' m1' = run rt (view st1 m1a) (calls_on False cs)"
      "view st' m2' = run rt (view st1 m2) (calls_on True cs)"
      by blast
    have "run_both grow rt (st, m1, m2) (bc # cs) = Some (st', m1', m2')"
      using bc False p r by simp
    then show ?thesis using i v1 v2 bc False by (simp add: calls_on_Cons run_Cons)
  qed
qed

text \<open>
  Calls on one record only are a run on that record, the other one passed along.
\<close>

lemma run_both_second_only:
  "run_both grow rt (st, m1, m2) (map (Pair True) cs) =
     map_option (\<lambda>(st', m2'). (st', m1, m2')) (run_st grow rt (st, m2) cs)"
proof (induction cs arbitrary: st m2)
  case Nil
  then show ?case by simp
next
  case (Cons c cs)
  then show ?case by (cases "perform_st grow rt (st, m2) c") auto
qed

lemma run_both_first_only:
  "run_both grow rt (st, m1, m2) (map (Pair False) cs) =
     map_option (\<lambda>(st', m1'). (st', m1', m2)) (run_st grow rt (st, m1) cs)"
proof (induction cs arbitrary: st m1)
  case Nil
  then show ?case by simp
next
  case (Cons c cs)
  then show ?case by (cases "perform_st grow rt (st, m1) c") auto
qed

text \<open>
  C5: take a well-formed record \<open>m\<close> in a store. \<open>Copy\<close> does not panic; the record
  it returns has the name, time, value kind, aggregate flag, tags and fields of \<open>m\<close>,
  and \<open>m\<close> still has its own. The two are well formed and apart: no array and no
  \<open>Tag\<close> or \<open>Field\<close> struct belongs to both. After any calls of \<open>AddTag\<close>,
  \<open>RemoveTag\<close>, \<open>AddField\<close>, \<open>RemoveField\<close> and \<open>SetTime\<close>, made on the one and on
  the other in any order, none panics, \<open>m\<close> is what its own calls alone make of the
  value it had, the copy is what its own calls alone make of that same value, and
  the two are still well formed and apart. Then a write through any pointer that
  \<open>TagList\<close> or \<open>FieldList\<close> of the one returns leaves the other as it was. This
  holds for every choice the run time makes of spare capacity.
\<close>

theorem Copy_shares_no_storage:
  assumes "wf_metric st m"
  shows "\<exists>st1 m2. Copy_st st m = Some (st1, m2) \<and>
           view st1 m2 = view st m \<and> view st1 m = view st m \<and>
           wf_metric st1 m \<and> wf_metric st1 m2 \<and> apart st1 m m2 \<and>
           (\<forall>cs. \<exists>st2 m' m2'.
              run_both grow rt (st1, m, m2) cs = Some (st2, m', m2') \<and>
              view st2 m' = run rt (view st m) (calls_on False cs) \<and>
              view st2 m2' = run rt (view st m) (calls_on True cs) \<and>
              wf_metric st2 m' \<and> wf_metric st2 m2' \<and> apart st2 m' m2' \<and>
              (\<forall>p x st3. p \<in> set (TagList_st st2 m2') \<and> poke_tag st2 p x = Some st3 \<longrightarrow>
                 view st3 m' = view st2 m') \<and>
              (\<forall>p x st3. p \<in> set (FieldList_st st2 m2') \<and> poke_field st2 p x = Some st3 \<longrightarrow>
                 view st3 m' = view st2 m') \<and>
              (\<forall>p x st3. p \<in> set (TagList_st st2 m') \<and> poke_tag st2 p x = Some st3 \<longrightarrow>
                 view st3 m2' = view st2 m2') \<and>
              (\<forall>p x st3. p \<in> set (FieldList_st st2 m') \<and> poke_field st2 p x = Some st3 \<longrightarrow>
                 view st3 m2' = view st2 m2'))"
proof -
  from Copy_st_effect [OF assms] obtain st1 m2 where
    c: "Copy_st st m = Some (st1, m2)" and w2: "wf_metric st1 m2"
    and v2: "view st1 m2 = view st m"
    and f: "wf_metric st1 m \<and> view st1 m = view st m \<and> apart st1 m2 m"
    using assms by blast
  then have w1: "wf_metric st1 m" and v1: "view st1 m = view st m" and a: "apart st1 m m2"
    by (auto intro: apart_sym)
  have "\<exists>st2 m' m2'.
      run_both grow rt (st1, m, m2) cs = Some (st2, m', m2') \<and>
      view st2 m' = run rt (view st m) (calls_on False cs) \<and>
      view st2 m2' = run rt (view st m) (calls_on True cs) \<and>
      wf_metric st2 m' \<and> wf_metric st2 m2' \<and> apart st2 m' m2' \<and>
      (\<forall>p x st3. p \<in> set (TagList_st st2 m2') \<and> poke_tag st2 p x = Some st3 \<longrightarrow>
         view st3 m' = view st2 m') \<and>
      (\<forall>p x st3. p \<in> set (FieldList_st st2 m2') \<and> poke_field st2 p x = Some st3 \<longrightarrow>
         view st3 m' = view st2 m') \<and>
      (\<forall>p x st3. p \<in> set (TagList_st st2 m') \<and> poke_tag st2 p x = Some st3 \<longrightarrow>
         view st3 m2' = view st2 m2') \<and>
      (\<forall>p x st3. p \<in> set (FieldList_st st2 m') \<and> poke_field st2 p x = Some st3 \<longrightarrow>
         view st3 m2' = view st2 m2')" for cs
  proof -
    from run_both_refines [OF w1 w2 a, of grow rt cs] obtain st2 m' m2' where
      r: "run_both grow rt (st1, m, m2) cs = Some (st2, m', m2')"
      and w': "wf_metric st2 m'" and w2': "wf_metric st2 m2'" and a': "apart st2 m' m2'"
      and v': "view st2 m' = run rt (view st1 m) (calls_on False cs)"
      and v2': "view st2 m2' = run rt (view st1 m2) (calls_on True cs)"
      by blast
    note a'' = apart_sym [OF a']
    have 1: "view st3 m' = view st2 m'"
      if "p \<in> set (TagList_st st2 m2')" "poke_tag st2 p x = Some st3" for p x st3
      using poke_tag_apart [OF w' a' that] by simp
    have 2: "view st3 m' = view st2 m'"
      if "p \<in> set (FieldList_st st2 m2')" "poke_field st2 p x = Some st3" for p x st3
      using poke_field_apart [OF w' a' that] by simp
    have 3: "view st3 m2' = view st2 m2'"
      if "p \<in> set (TagList_st st2 m')" "poke_tag st2 p x = Some st3" for p x st3
      using poke_tag_apart [OF w2' a'' that] by simp
    have 4: "view st3 m2' = view st2 m2'"
      if "p \<in> set (FieldList_st st2 m')" "poke_field st2 p x = Some st3" for p x st3
      using poke_field_apart [OF w2' a'' that] by simp
    from r w' w2' a' v' v2' 1 2 3 4 show ?thesis unfolding v1 v2 by blast
  qed
  then show ?thesis using c v1 v2 w1 w2 a by blast
qed

theorem Copy_shares_no_storage_witness:
  "wf_metric example_store example_metric_st \<and>
   view example_store example_metric_st = example_metric \<and>
   (\<exists>st1 m2 st2 m' m2' st3 st4.
      Copy_st example_store example_metric_st = Some (st1, m2) \<and>
      view st1 m2 = example_metric \<and> view st1 example_metric_st = example_metric \<and>
      apart st1 example_metric_st m2 \<and>
      run_both (\<lambda>n. n) example_fpu (st1, example_metric_st, m2)
        [(True, CallAddTag ''host'' ''z''), (False, CallAddField ''y'' (VInt 7)),
         (True, CallRemoveField ''x''), (False, CallRemoveTag ''app''),
         (True, CallAddField ''w'' (VInt 1))] = Some (st2, m', m2') \<and>
      tags (view st2 m') = [\<lparr>Key = ''host'', Value = ''b''\<rparr>] \<and>
      tags (view st2 m2') =
        [\<lparr>Key = ''app'', Value = ''a''\<rparr>, \<lparr>Key = ''host'', Value = ''z''\<rparr>] \<and>
      Some 3 \<in> set (FieldList_st st2 m2') \<and>
      poke_field st2 (Some 3) \<lparr>FKey = ''w'', FValue = VNil\<rparr> = Some st3 \<and>
      view st3 m2' \<noteq> view st2 m2' \<and> view st3 m' = view st2 m' \<and>
      Some 0 \<in> set (TagList_st st2 m') \<and>
      poke_tag st2 (Some 0) \<lparr>Key = ''host'', Value = ''q''\<rparr> = Some st4 \<and>
      view st4 m' \<noteq> view st2 m' \<and> view st4 m2' = view st2 m2')"
proof -
  let ?cs = "[(True, CallAddTag ''host'' ''z''), (False, CallAddField ''y'' (VInt 7)),
         (True, CallRemoveField ''x''), (False, CallRemoveTag ''app''),
         (True, CallAddField ''w'' (VInt 1))]"
  have w: "wf_metric example_store example_metric_st" by code_simp
  have v: "view example_store example_metric_st = example_metric" by code_simp
  have e: "case Copy_st example_store example_metric_st of
      None \<Rightarrow> False
    | Some (st1, m2) \<Rightarrow>
        (case run_both (\<lambda>n. n) example_fpu (st1, example_metric_st, m2) ?cs of
           None \<Rightarrow> False
         | Some (st2, m', m2') \<Rightarrow>
             tags (view st2 m') = [\<lparr>Key = ''host'', Value = ''b''\<rparr>] \<and>
             tags (view st2 m2') =
               [\<lparr>Key = ''app'', Value = ''a''\<rparr>, \<lparr>Key = ''host'', Value = ''z''\<rparr>] \<and>
             Some 3 \<in> set (FieldList_st st2 m2') \<and>
             Some 0 \<in> set (TagList_st st2 m') \<and>
             (case poke_field st2 (Some 3) \<lparr>FKey = ''w'', FValue = VNil\<rparr> of
                None \<Rightarrow> False
              | Some st3 \<Rightarrow> view st3 m2' \<noteq> view st2 m2') \<and>
             (case poke_tag st2 (Some 0) \<lparr>Key = ''host'', Value = ''q''\<rparr> of
                None \<Rightarrow> False
              | Some st4 \<Rightarrow> view st4 m' \<noteq> view st2 m'))"
    by code_simp
  from Copy_shares_no_storage [OF w, of "\<lambda>n. n" example_fpu] obtain st1 m2 where
    c: "Copy_st example_store example_metric_st = Some (st1, m2)"
    and v2: "view st1 m2 = view example_store example_metric_st"
    and v1: "view st1 example_metric_st = view example_store example_metric_st"
    and a: "apart st1 example_metric_st m2"
    and all: "\<forall>cs. \<exists>st2 m' m2'.
              run_both (\<lambda>n. n) example_fpu (st1, example_metric_st, m2) cs = Some (st2, m', m2') \<and>
              view st2 m' = run example_fpu (view example_store example_metric_st) (calls_on False cs) \<and>
              view st2 m2' = run example_fpu (view example_store example_metric_st) (calls_on True cs) \<and>
              wf_metric st2 m' \<and> wf_metric st2 m2' \<and> apart st2 m' m2' \<and>
              (\<forall>p x st3. p \<in> set (TagList_st st2 m2') \<and> poke_tag st2 p x = Some st3 \<longrightarrow>
                 view st3 m' = view st2 m') \<and>
              (\<forall>p x st3. p \<in> set (FieldList_st st2 m2') \<and> poke_field st2 p x = Some st3 \<longrightarrow>
                 view st3 m' = view st2 m') \<and>
              (\<forall>p x st3. p \<in> set (TagList_st st2 m') \<and> poke_tag st2 p x = Some st3 \<longrightarrow>
                 view st3 m2' = view st2 m2') \<and>
              (\<forall>p x st3. p \<in> set (FieldList_st st2 m') \<and> poke_field st2 p x = Some st3 \<longrightarrow>
                 view st3 m2' = view st2 m2')"
    by (elim exE conjE)
  from all [rule_format, of ?cs] obtain st2 m' m2' where
    r: "run_both (\<lambda>n. n) example_fpu (st1, example_metric_st, m2) ?cs = Some (st2, m', m2')"
    and "view st2 m' = run example_fpu (view example_store example_metric_st) (calls_on False ?cs)"
    and "view st2 m2' = run example_fpu (view example_store example_metric_st) (calls_on True ?cs)"
    and "wf_metric st2 m'" and "wf_metric st2 m2'" and "apart st2 m' m2'"
    and "\<forall>p x st3. p \<in> set (TagList_st st2 m2') \<and> poke_tag st2 p x = Some st3 \<longrightarrow>
           view st3 m' = view st2 m'"
    and pf: "\<forall>p x st3. p \<in> set (FieldList_st st2 m2') \<and> poke_field st2 p x = Some st3 \<longrightarrow>
           view st3 m' = view st2 m'"
    and pt: "\<forall>p x st3. p \<in> set (TagList_st st2 m') \<and> poke_tag st2 p x = Some st3 \<longrightarrow>
           view st3 m2' = view st2 m2'"
    and "\<forall>p x st3. p \<in> set (FieldList_st st2 m') \<and> poke_field st2 p x = Some st3 \<longrightarrow>
           view st3 m2' = view st2 m2'"
    by (elim exE conjE)
  from e c r obtain st3 st4 where
    t: "tags (view st2 m') = [\<lparr>Key = ''host'', Value = ''b''\<rparr>]"
      "tags (view st2 m2') =
         [\<lparr>Key = ''app'', Value = ''a''\<rparr>, \<lparr>Key = ''host'', Value = ''z''\<rparr>]"
    and m3: "Some 3 \<in> set (FieldList_st st2 m2')"
    and m0: "Some 0 \<in> set (TagList_st st2 m')"
    and k3: "poke_field st2 (Some 3) \<lparr>FKey = ''w'', FValue = VNil\<rparr> = Some st3"
      "view st3 m2' \<noteq> view st2 m2'"
    and k4: "poke_tag st2 (Some 0) \<lparr>Key = ''host'', Value = ''q''\<rparr> = Some st4"
      "view st4 m' \<noteq> view st2 m'"
    by (auto split: option.splits)
  have u3: "view st3 m' = view st2 m'" using pf m3 k3(1) by blast
  have u4: "view st4 m2' = view st2 m2'" using pt m0 k4(1) by blast
  have "Copy_st example_store example_metric_st = Some (st1, m2) \<and>
      view st1 m2 = example_metric \<and> view st1 example_metric_st = example_metric \<and>
      apart st1 example_metric_st m2 \<and>
      run_both (\<lambda>n. n) example_fpu (st1, example_metric_st, m2) ?cs = Some (st2, m', m2') \<and>
      tags (view st2 m') = [\<lparr>Key = ''host'', Value = ''b''\<rparr>] \<and>
      tags (view st2 m2') =
        [\<lparr>Key = ''app'', Value = ''a''\<rparr>, \<lparr>Key = ''host'', Value = ''z''\<rparr>] \<and>
      Some 3 \<in> set (FieldList_st st2 m2') \<and>
      poke_field st2 (Some 3) \<lparr>FKey = ''w'', FValue = VNil\<rparr> = Some st3 \<and>
      view st3 m2' \<noteq> view st2 m2' \<and> view st3 m' = view st2 m' \<and>
      Some 0 \<in> set (TagList_st st2 m') \<and>
      poke_tag st2 (Some 0) \<lparr>Key = ''host'', Value = ''q''\<rparr> = Some st4 \<and>
      view st4 m' \<noteq> view st2 m' \<and> view st4 m2' = view st2 m2'"
    using c r t m3 m0 k3 k4 a u3 u4 v1 v2 unfolding v by (intro conjI)
  then have "\<exists>st1 m2 st2 m' m2' st3 st4.
      Copy_st example_store example_metric_st = Some (st1, m2) \<and>
      view st1 m2 = example_metric \<and> view st1 example_metric_st = example_metric \<and>
      apart st1 example_metric_st m2 \<and>
      run_both (\<lambda>n. n) example_fpu (st1, example_metric_st, m2) ?cs = Some (st2, m', m2') \<and>
      tags (view st2 m') = [\<lparr>Key = ''host'', Value = ''b''\<rparr>] \<and>
      tags (view st2 m2') =
        [\<lparr>Key = ''app'', Value = ''a''\<rparr>, \<lparr>Key = ''host'', Value = ''z''\<rparr>] \<and>
      Some 3 \<in> set (FieldList_st st2 m2') \<and>
      poke_field st2 (Some 3) \<lparr>FKey = ''w'', FValue = VNil\<rparr> = Some st3 \<and>
      view st3 m2' \<noteq> view st2 m2' \<and> view st3 m' = view st2 m' \<and>
      Some 0 \<in> set (TagList_st st2 m') \<and>
      poke_tag st2 (Some 0) \<lparr>Key = ''host'', Value = ''q''\<rparr> = Some st4 \<and>
      view st4 m' \<noteq> view st2 m' \<and> view st4 m2' = view st2 m2'"
    by (intro exI)
  from conjI [OF w conjI [OF v this]] show ?thesis .
qed

text \<open>
  Without \<open>Copy\<close> it is otherwise. A second struct with the same two slices is not
  apart from the first; it sees an \<open>AddTag\<close> on the first, and a write through a
  pointer that \<open>FieldList\<close> of the first returns.
\<close>

lemma alias_is_not_independent:
  "\<not> apart example_store example_metric_st example_metric_st \<and>
   tags (view example_store example_metric_st) =
     [\<lparr>Key = ''app'', Value = ''a''\<rparr>, \<lparr>Key = ''host'', Value = ''b''\<rparr>] \<and>
   map_option (\<lambda>(st', m'). tags (view st' example_metric_st))
     (AddTag_st (\<lambda>n. n) example_store example_metric_st ''host'' ''z'') =
     Some [\<lparr>Key = ''app'', Value = ''a''\<rparr>, \<lparr>Key = ''host'', Value = ''z''\<rparr>] \<and>
   FieldList_st example_store example_metric_st = [Some 0] \<and>
   map_option (\<lambda>st'. fields_m (view st' example_metric_st))
     (poke_field example_store (Some 0) \<lparr>FKey = ''x'', FValue = VNil\<rparr>) =
     Some [\<lparr>FKey = ''x'', FValue = VNil\<rparr>]"
  by code_simp
subsection \<open>NewMetric in the store\<close>

text \<open>
  \<open>NewMetric\<close> never panics; the record it builds is well formed, stands for the
  record that \<open>NewMetric\<close> builds on values, and is apart from every record that was
  in the store, which it leaves as they were.
\<close>

lemma footprint_trans:
  assumes "footprint c a s c1 a1 s1" "footprint c1 a1 s1 c2 a2 s2"
  shows "footprint c a s c2 a2 s2"
proof -
  from assms(1) have g1: "grown (array s) a a1" and l1: "length c \<le> length c1"
    and k1: "\<And>q. q < length c \<Longrightarrow> Some q \<notin> set (elems a s) \<Longrightarrow> c1 ! q = c ! q"
    and r1: "array s1 = array s \<or> (\<exists>b\<ge>length a. array s1 = Some b)"
    and n1: "\<And>p. p \<in> set (elems a1 s1) \<Longrightarrow>
               p \<in> set (elems a s) \<or> (\<exists>q\<ge>length c. p = Some q)"
    by (auto simp: footprint_def)
  from assms(2) have g2: "grown (array s1) a1 a2" and l2: "length c1 \<le> length c2"
    and k2: "\<And>q. q < length c1 \<Longrightarrow> Some q \<notin> set (elems a1 s1) \<Longrightarrow> c2 ! q = c1 ! q"
    and r2: "array s2 = array s1 \<or> (\<exists>b\<ge>length a1. array s2 = Some b)"
    and n2: "\<And>p. p \<in> set (elems a2 s2) \<Longrightarrow>
               p \<in> set (elems a1 s1) \<or> (\<exists>q\<ge>length c1. p = Some q)"
    by (auto simp: footprint_def)
  have la: "length a \<le> length a1" using g1 by (simp add: grown_def)
  have 1: "grown (array s) a a2" using g1 g2 r1 by (rule grown_trans)
  have 2: "length c \<le> length c2" using l1 l2 by simp
  have 3: "c2 ! q = c ! q" if "q < length c" "Some q \<notin> set (elems a s)" for q
  proof -
    have "Some q \<notin> set (elems a1 s1)" using n1 [of "Some q"] that by auto
    then have "c2 ! q = c1 ! q" using that(1) l1 by (intro k2) auto
    then show ?thesis using k1 [OF that] by simp
  qed
  have 4: "array s2 = array s \<or> (\<exists>b\<ge>length a. array s2 = Some b)"
    using r1 r2 la by auto
  have 5: "p \<in> set (elems a s) \<or> (\<exists>q\<ge>length c. p = Some q)" if "p \<in> set (elems a2 s2)" for p
    using n2 [OF that] n1 [of p] l1 by auto
  from 1 2 3 4 5 show ?thesis unfolding footprint_def by blast
qed

lemma NewMetric_tags_loop_effect:
  "wf_slice (tag_cells st) (tag_arrays st) s \<Longrightarrow>
   \<exists>st' s'. NewMetric_tags_loop grow st s kvs = (st', s') \<and>
     st' = st\<lparr>tag_cells := tag_cells st', tag_arrays := tag_arrays st'\<rparr> \<and>
     wf_slice (tag_cells st') (tag_arrays st') s' \<and>
     footprint (tag_cells st) (tag_arrays st) s (tag_cells st') (tag_arrays st') s' \<and>
     contents (tag_cells st') (tag_arrays st') s' =
       contents (tag_cells st) (tag_arrays st) s @ map (\<lambda>(k, v). \<lparr>Key = k, Value = v\<rparr>) kvs"
proof (induction kvs arbitrary: st s)
  case Nil
  then show ?case by (simp add: footprint_refl)
next
  case (Cons kv rest)
  let ?new = "\<lparr>Key = fst kv, Value = snd kv\<rparr>"
  obtain cells p where al: "alloc (tag_cells st) ?new = (cells, p)"
    by (cases "alloc (tag_cells st) ?new")
  obtain arrs s1 where ap: "append_go grow (tag_arrays st) s p = (arrs, s1)"
    by (cases "append_go grow (tag_arrays st) s p")
  define st1 where "st1 = st\<lparr>tag_cells := cells, tag_arrays := arrs\<rparr>"
  have h: "tag_cells st1 = cells" "tag_arrays st1 = arrs" by (simp_all add: st1_def)
  have r: "NewMetric_tags_loop grow st s (kv # rest) = NewMetric_tags_loop grow st1 s1 rest"
    using al ap by (simp add: st1_def)
  from push_effect [OF Cons.prems al ap] have w1: "wf_slice (tag_cells st1) (tag_arrays st1) s1"
    and f1: "footprint (tag_cells st) (tag_arrays st) s (tag_cells st1) (tag_arrays st1) s1"
    and c1: "contents (tag_cells st1) (tag_arrays st1) s1 =
               contents (tag_cells st) (tag_arrays st) s @ [?new]"
    by (simp_all add: h)
  from Cons.IH [OF w1] obtain st' s' where
    l: "NewMetric_tags_loop grow st1 s1 rest = (st', s')"
    and s': "st' = st1\<lparr>tag_cells := tag_cells st', tag_arrays := tag_arrays st'\<rparr>"
    and w': "wf_slice (tag_cells st') (tag_arrays st') s'"
    and f': "footprint (tag_cells st1) (tag_arrays st1) s1 (tag_cells st') (tag_arrays st') s'"
    and c': "contents (tag_cells st') (tag_arrays st') s' =
       contents (tag_cells st1) (tag_arrays st1) s1 @ map (\<lambda>(k, v). \<lparr>Key = k, Value = v\<rparr>) rest"
    by blast
  have 1: "st' = st\<lparr>tag_cells := tag_cells st', tag_arrays := tag_arrays st'\<rparr>"
    by (subst s') (simp add: st1_def)
  have 2: "footprint (tag_cells st) (tag_arrays st) s (tag_cells st') (tag_arrays st') s'"
    using f1 f' by (rule footprint_trans)
  have 3: "contents (tag_cells st') (tag_arrays st') s' =
       contents (tag_cells st) (tag_arrays st) s @
       map (\<lambda>(k, v). \<lparr>Key = k, Value = v\<rparr>) (kv # rest)"
    unfolding c' c1 by (simp add: case_prod_beta)
  show ?case unfolding r l using 1 w' 2 3 by simp
qed

lemma map_insort_key:
  "map f (insort_key (\<lambda>x. g (f x)) x xs) = insort_key g (f x) (map f xs)"
  by (induction xs) simp_all

lemma map_sort_key: "map f (sort_key (\<lambda>x. g (f x)) xs) = sort_key g (map f xs)"
  by (induction xs) (simp_all add: map_insort_key)

lemma sort_Slice_effect:
  assumes w: "wf_slice (tag_cells st) (tag_arrays st) s"
  shows "\<exists>st'. sort_Slice st s = Some st' \<and> st' = st\<lparr>tag_arrays := tag_arrays st'\<rparr> \<and>
           wf_slice (tag_cells st') (tag_arrays st') s \<and>
           footprint (tag_cells st) (tag_arrays st) s (tag_cells st') (tag_arrays st') s \<and>
           contents (tag_cells st') (tag_arrays st') s =
             sort_key Key (contents (tag_cells st) (tag_arrays st) s)"
proof -
  note w0 = wf_sliceD [OF w]
  let ?c = "tag_cells st" and ?a = "tag_arrays st"
  let ?es = "elems ?a s"
  let ?k = "\<lambda>p. Key (?c ! the p)"
  have C: "sort_key Key (contents ?c ?a s) = map (\<lambda>p. ?c ! the p) (sort_key ?k ?es)"
    unfolding contents_def
    by (rule map_sort_key [where f = "\<lambda>p. ?c ! the p" and g = Key, symmetric])
  show ?thesis
  proof (cases "array s")
    case None
    then have "?es = []" by (simp add: elems_def)
    then have "contents ?c ?a s = []" by (simp add: contents_def)
    then show ?thesis using None w by (simp add: sort_Slice_def footprint_refl)
  next
    case (Some a)
    then have a: "a < length ?a" "len s \<le> length (?a ! a)"
      using w0(1) by (auto simp: in_bounds_def)
    show ?thesis
    proof (cases "len s \<le> 1")
      case True
      then have "length ?es \<le> 1" using w0(2) by simp
      then have "sort_key ?k ?es = ?es" by (cases ?es) auto
      then have "sort_key Key (contents ?c ?a s) = contents ?c ?a s"
        unfolding C by (simp add: contents_def)
      then show ?thesis using Some True w by (simp add: sort_Slice_def footprint_refl)
    next
      case False
      define arrs' where
        "arrs' = ?a[a := sort_key ?k ?es @ drop (len s) (?a ! a)]"
      have v: "list_all (valid_ptr ?c) ?es" using w by (simp add: wf_slice_def)
      have r: "sort_Slice st s = Some (st\<lparr>tag_arrays := arrs'\<rparr>)"
        using Some False v by (simp add: sort_Slice_def arrs'_def)
      have b: "in_bounds arrs' s" using Some a w0(2) by (simp add: in_bounds_def arrs'_def)
      have e: "elems arrs' s = sort_key ?k ?es"
        using Some a w0(2) by (simp add: elems_def arrs'_def)
      have w': "wf_slice ?c arrs' s"
        using w0(3,4) by (intro wf_sliceI [OF b]) (simp_all add: e)
      have g: "grown (array s) ?a arrs'" using Some by (auto simp: grown_def arrs'_def)
      have f: "footprint ?c ?a s ?c arrs' s"
        unfolding footprint_def using g by (simp add: e)
      have c: "contents ?c arrs' s = sort_key Key (contents ?c ?a s)"
        unfolding C by (simp add: contents_def e)
      show ?thesis unfolding r using w' f c by simp
    qed
  qed
qed

lemma NewMetric_fields_loop_refines:
  "wf_metric st m \<Longrightarrow>
   \<exists>st' m'. NewMetric_fields_loop grow rt st m kvs = Some (st', m') \<and> wf_metric st' m' \<and>
     view st' m' = foldl (NewMetric_field rt) (view st m) kvs \<and>
     (\<forall>m0. wf_metric st m0 \<and> apart st m m0 \<longrightarrow>
           wf_metric st' m0 \<and> view st' m0 = view st m0 \<and> apart st' m' m0)"
proof (induction kvs arbitrary: st m)
  case Nil
  then show ?case by simp
next
  case (Cons kv rest)
  show ?case
  proof (cases "convertField rt (snd kv) = VNil")
    case True
    then have "NewMetric_fields_loop grow rt st m (kv # rest) =
               NewMetric_fields_loop grow rt st m rest" by simp
    moreover have "NewMetric_field rt (view st m) kv = view st m"
      using True by (simp add: NewMetric_field_def case_prod_beta)
    ultimately show ?thesis using Cons.IH [OF Cons.prems] by simp
  next
    case False
    let ?v = "convertField rt (snd kv)"
    from AddField_st_refines [OF Cons.prems, of grow rt "fst kv" ?v] obtain st1 m1 where
      p: "AddField_st grow rt st m (fst kv) ?v = Some (st1, m1)" and w1: "wf_metric st1 m1"
      and v1: "view st1 m1 = AddField rt (view st m) (fst kv) ?v"
      and f1: "\<And>m0. wf_metric st m0 \<Longrightarrow> apart st m m0 \<Longrightarrow>
                 wf_metric st1 m0 \<and> view st1 m0 = view st m0 \<and> apart st1 m1 m0"
      by blast
    from Cons.IH [OF w1] obtain st' m' where
      r: "NewMetric_fields_loop grow rt st1 m1 rest = Some (st', m')" and w': "wf_metric st' m'"
      and v': "view st' m' = foldl (NewMetric_field rt) (view st1 m1) rest"
      and f': "\<And>m0. wf_metric st1 m0 \<Longrightarrow> apart st1 m1 m0 \<Longrightarrow>
                 wf_metric st' m0 \<and> view st' m0 = view st1 m0 \<and> apart st' m' m0"
      by blast
    have "NewMetric_fields_loop grow rt st m (kv # rest) = Some (st', m')"
      using False p r by simp
    moreover have "NewMetric_field rt (view st m) kv = view st1 m1"
      using False v1 by (simp add: NewMetric_field_def case_prod_beta Let_def)
    then have "view st' m' = foldl (NewMetric_field rt) (view st m) (kv # rest)"
      using v' by simp
    moreover have "wf_metric st' m0 \<and> view st' m0 = view st m0 \<and> apart st' m' m0"
      if "wf_metric st m0" "apart st m m0" for m0
      using f1 [OF that] f' [of m0] by auto
    ultimately show ?thesis using w' by blast
  qed
qed


lemma fresh_slice:
  assumes "s = \<lparr>array = Some (length arrs), len = 0\<rparr>"
  shows "wf_slice cells (arrs @ [replicate c None]) s"
    and "footprint cells arrs \<lparr>array = None, len = 0\<rparr> cells (arrs @ [replicate c None]) s"
    and "contents cells (arrs @ [replicate c None]) s = []"
proof -
  have e: "elems (arrs @ [replicate c None]) s = []" using assms by (simp add: elems_def)
  show "wf_slice cells (arrs @ [replicate c None]) s"
    using assms e by (simp add: wf_slice_def in_bounds_def)
  show "footprint cells arrs \<lparr>array = None, len = 0\<rparr> cells (arrs @ [replicate c None]) s"
    unfolding footprint_def using assms e by (auto simp: grown_def nth_append)
  show "contents cells (arrs @ [replicate c None]) s = []" using e by (simp add: contents_def)
qed

lemma nil_slice: "wf_slice cells arrs \<lparr>array = None, len = 0\<rparr>"
  "contents cells arrs \<lparr>array = None, len = 0\<rparr> = []"
  by (simp_all add: wf_slice_def in_bounds_def elems_def contents_def)

lemma NewMetric_st_tags_refines:
  assumes w: "wf_metric st m" and n: "st_tags m = \<lparr>array = None, len = 0\<rparr>"
  shows "\<exists>st' m'. NewMetric_st_tags grow st m tagmap = Some (st', m') \<and> wf_metric st' m' \<and>
     view st' m' = (if length tagmap > 0
                    then (view st m)\<lparr>tags :=
                           sort_key Key (map (\<lambda>(k, v). \<lparr>Key = k, Value = v\<rparr>) tagmap)\<rparr>
                    else view st m) \<and>
     st_fields m' = st_fields m \<and>
     (\<forall>m0. wf_metric st m0 \<and> apart st m m0 \<longrightarrow>
           wf_metric st' m0 \<and> view st' m0 = view st m0 \<and> apart st' m' m0)"
proof (cases "length tagmap > 0")
  case False
  then show ?thesis using w by (simp add: NewMetric_st_tags_def)
next
  case True
  let ?tc = "tag_cells st" and ?ta = "tag_arrays st"
  let ?nil = "\<lparr>array = None, len = 0\<rparr>"
  define s where "s = \<lparr>array = Some (length ?ta), len = 0\<rparr>"
  define st0 where "st0 = st\<lparr>tag_arrays := ?ta @ [replicate (length tagmap) None]\<rparr>"
  have h0: "tag_cells st0 = ?tc" "tag_arrays st0 = ?ta @ [replicate (length tagmap) None]"
    by (simp_all add: st0_def)
  have mk: "make_slice ?ta 0 (length tagmap) = (tag_arrays st0, s)"
    by (simp add: make_slice_def h0 s_def)
  have st0': "st\<lparr>tag_arrays := tag_arrays st0\<rparr> = st0" by (simp add: st0_def)
  note fr = fresh_slice [OF s_def, of ?tc "length tagmap"]
  have w0: "wf_slice (tag_cells st0) (tag_arrays st0) s" using fr(1) by (simp add: h0)
  from NewMetric_tags_loop_effect [OF w0, of grow tagmap] obtain st1 s1 where
    l: "NewMetric_tags_loop grow st0 s tagmap = (st1, s1)"
    and e1: "st1 = st0\<lparr>tag_cells := tag_cells st1, tag_arrays := tag_arrays st1\<rparr>"
    and w1: "wf_slice (tag_cells st1) (tag_arrays st1) s1"
    and f1: "footprint (tag_cells st0) (tag_arrays st0) s (tag_cells st1) (tag_arrays st1) s1"
    and c1: "contents (tag_cells st1) (tag_arrays st1) s1 =
       contents (tag_cells st0) (tag_arrays st0) s @ map (\<lambda>(k, v). \<lparr>Key = k, Value = v\<rparr>) tagmap"
    by blast
  from sort_Slice_effect [OF w1] obtain st2 where
    so: "sort_Slice st1 s1 = Some st2" and e2: "st2 = st1\<lparr>tag_arrays := tag_arrays st2\<rparr>"
    and w2: "wf_slice (tag_cells st2) (tag_arrays st2) s1"
    and f2: "footprint (tag_cells st1) (tag_arrays st1) s1 (tag_cells st2) (tag_arrays st2) s1"
    and c2: "contents (tag_cells st2) (tag_arrays st2) s1 =
               sort_key Key (contents (tag_cells st1) (tag_arrays st1) s1)"
    by blast
  have r: "NewMetric_st_tags grow st m tagmap = Some (st2, m\<lparr>st_tags := s1\<rparr>)"
    using True by (simp add: NewMetric_st_tags_def mk st0' l so)
  have f0: "footprint ?tc ?ta (st_tags m) (tag_cells st0) (tag_arrays st0) s"
    using fr(2) by (simp add: h0 n)
  have f: "footprint ?tc ?ta (st_tags m) (tag_cells st2) (tag_arrays st2) s1"
    using footprint_trans [OF f0 f1] f2 by (rule footprint_trans)
  have tc2: "tag_cells st2 = tag_cells st1" by (subst e2) simp
  have e: "st2 = st\<lparr>tag_cells := tag_cells st2, tag_arrays := tag_arrays st2\<rparr>"
    by (subst e2, subst e1) (simp add: st0_def tc2)
  have c: "contents (tag_cells st2) (tag_arrays st2) s1 =
             sort_key Key (map (\<lambda>(k, v). \<lparr>Key = k, Value = v\<rparr>) tagmap)"
    using c2 c1 fr(3) by (simp add: h0)
  from tags_step [OF w, of st2 "m\<lparr>st_tags := s1\<rparr>"] e w2 f
  have "wf_metric st2 (m\<lparr>st_tags := s1\<rparr>) \<and>
     view st2 (m\<lparr>st_tags := s1\<rparr>) =
       (view st m)\<lparr>tags := contents (tag_cells st2) (tag_arrays st2) s1\<rparr> \<and>
     (\<forall>m0. wf_metric st m0 \<and> apart st m m0 \<longrightarrow>
           wf_metric st2 m0 \<and> view st2 m0 = view st m0 \<and> apart st2 (m\<lparr>st_tags := s1\<rparr>) m0)"
    by simp
  then show ?thesis unfolding r using True c by simp
qed

lemma NewMetric_st_fields_refines:
  assumes w: "wf_metric st m" and n: "st_fields m = \<lparr>array = None, len = 0\<rparr>"
  shows "\<exists>st' m'. NewMetric_st_fields grow rt st m fieldmap = Some (st', m') \<and> wf_metric st' m' \<and>
     view st' m' = (if length fieldmap > 0
                    then foldl (NewMetric_field rt) ((view st m)\<lparr>fields_m := []\<rparr>) fieldmap
                    else view st m) \<and>
     (\<forall>m0. wf_metric st m0 \<and> apart st m m0 \<longrightarrow>
           wf_metric st' m0 \<and> view st' m0 = view st m0 \<and> apart st' m' m0)"
proof (cases "length fieldmap > 0")
  case False
  then show ?thesis using w by (simp add: NewMetric_st_fields_def)
next
  case True
  let ?fc = "field_cells st" and ?fa = "field_arrays st"
  define s where "s = \<lparr>array = Some (length ?fa), len = 0\<rparr>"
  define st0 where "st0 = st\<lparr>field_arrays := ?fa @ [replicate (length fieldmap) None]\<rparr>"
  define m0' where "m0' = m\<lparr>st_fields := s\<rparr>"
  have h0: "field_cells st0 = ?fc" "field_arrays st0 = ?fa @ [replicate (length fieldmap) None]"
    by (simp_all add: st0_def)
  have mk: "make_slice ?fa 0 (length fieldmap) = (field_arrays st0, s)"
    by (simp add: make_slice_def h0 s_def)
  have st0': "st\<lparr>field_arrays := field_arrays st0\<rparr> = st0" by (simp add: st0_def)
  note fr = fresh_slice [OF s_def, of ?fc "length fieldmap"]
  have r: "NewMetric_st_fields grow rt st m fieldmap =
           NewMetric_fields_loop grow rt st0 m0' fieldmap"
    using True by (simp add: NewMetric_st_fields_def mk st0' m0'_def)
  have e: "st0 = st\<lparr>field_cells := field_cells st0, field_arrays := field_arrays st0\<rparr>"
    by (simp add: st0_def)
  have em: "m0' = m\<lparr>st_fields := st_fields m0'\<rparr>" by (simp add: m0'_def)
  have ws: "wf_slice (field_cells st0) (field_arrays st0) (st_fields m0')"
    using fr(1) by (simp add: h0 m0'_def)
  have f0: "footprint ?fc ?fa (st_fields m) (field_cells st0) (field_arrays st0) (st_fields m0')"
    using fr(2) by (simp add: h0 n m0'_def)
  from fields_step [OF w e em ws f0] have w0: "wf_metric st0 m0'"
    and v0: "view st0 m0' = (view st m)\<lparr>fields_m := []\<rparr>"
    and fr0: "\<And>x. wf_metric st x \<Longrightarrow> apart st m x \<Longrightarrow>
                wf_metric st0 x \<and> view st0 x = view st x \<and> apart st0 m0' x"
    using fr(3) by (simp_all add: h0 m0'_def)
  from NewMetric_fields_loop_refines [OF w0, of grow rt fieldmap] obtain st' m' where
    l: "NewMetric_fields_loop grow rt st0 m0' fieldmap = Some (st', m')" and w': "wf_metric st' m'"
    and v': "view st' m' = foldl (NewMetric_field rt) (view st0 m0') fieldmap"
    and fr': "\<And>x. wf_metric st0 x \<Longrightarrow> apart st0 m0' x \<Longrightarrow>
                wf_metric st' x \<and> view st' x = view st0 x \<and> apart st' m' x"
    by blast
  have "wf_metric st' x \<and> view st' x = view st x \<and> apart st' m' x"
    if "wf_metric st x" "apart st m x" for x
    using fr0 [OF that] fr' [of x] by auto
  then show ?thesis unfolding r l using True w' v' v0 by simp
qed

lemma NewMetric_st_refines:
  "\<exists>st' m. NewMetric_st grow rt st nm tagmap fieldmap t tps = Some (st', m) \<and> wf_metric st' m \<and>
     view st' m = NewMetric rt nm tagmap fieldmap t tps \<and>
     (\<forall>m0. wf_metric st m0 \<longrightarrow> wf_metric st' m0 \<and> view st' m0 = view st m0 \<and> apart st' m m0)"
proof -
  let ?nil = "\<lparr>array = None, len = 0\<rparr>"
  define vtype where "vtype = (case tps of tp0 # _ \<Rightarrow> tp0 | [] \<Rightarrow> Untyped)"
  define m where "m = \<lparr>st_name = nm, st_tags = ?nil, st_fields = ?nil, st_tm = t,
    st_tp = vtype, st_aggregate = False\<rparr>"
  have w: "wf_metric st m" by (simp add: wf_metric_def m_def nil_slice)
  have v: "view st m =
    \<lparr>name = nm, tags = [], fields_m = [], tm = t, tp = vtype, aggregate = False\<rparr>"
    by (simp add: view_def m_def nil_slice)
  have ap: "apart st m x" for x by (simp add: apart_def m_def apart_nil)
  from NewMetric_st_tags_refines [OF w, of grow tagmap] obtain st1 m1 where
    r1: "NewMetric_st_tags grow st m tagmap = Some (st1, m1)" and w1: "wf_metric st1 m1"
    and v1: "view st1 m1 = (if length tagmap > 0
                    then (view st m)\<lparr>tags :=
                           sort_key Key (map (\<lambda>(k, v). \<lparr>Key = k, Value = v\<rparr>) tagmap)\<rparr>
                    else view st m)"
    and n1: "st_fields m1 = ?nil"
    and f1: "\<And>x. wf_metric st x \<Longrightarrow> wf_metric st1 x \<and> view st1 x = view st x \<and> apart st1 m1 x"
    using ap by (auto simp: m_def)
  from NewMetric_st_fields_refines [OF w1 n1, of grow rt fieldmap] obtain st2 m2 where
    r2: "NewMetric_st_fields grow rt st1 m1 fieldmap = Some (st2, m2)" and w2: "wf_metric st2 m2"
    and v2: "view st2 m2 = (if length fieldmap > 0
                    then foldl (NewMetric_field rt) ((view st1 m1)\<lparr>fields_m := []\<rparr>) fieldmap
                    else view st1 m1)"
    and f2: "\<And>x. wf_metric st1 x \<Longrightarrow> apart st1 m1 x \<Longrightarrow>
                wf_metric st2 x \<and> view st2 x = view st1 x \<and> apart st2 m2 x"
    by blast
  have r: "NewMetric_st grow rt st nm tagmap fieldmap t tps = Some (st2, m2)"
    by (simp add: NewMetric_st_def Let_def vtype_def [symmetric] m_def [symmetric] r1 r2)
  have "view st2 m2 = NewMetric rt nm tagmap fieldmap t tps"
    unfolding v2 v1 v by (simp add: NewMetric_def Let_def vtype_def)
  moreover have "wf_metric st2 x \<and> view st2 x = view st x \<and> apart st2 m2 x" if "wf_metric st x" for x
    using f1 [OF that] f2 [of x] by auto
  ultimately show ?thesis using r w2 by blast
qed

text \<open>So every record that \<open>NewMetric\<close> and a run of calls build is well formed.\<close>

lemma built_records_are_well_formed:
  assumes "NewMetric_st grow rt st nm tagmap fieldmap t tps = Some (st1, m1)"
    and "run_st grow' rt' (st1, m1) cs = Some (st2, m2)"
  shows "wf_metric st2 m2 \<and> view st2 m2 = run rt' (NewMetric rt nm tagmap fieldmap t tps) cs"
proof -
  from NewMetric_st_refines [of grow rt st nm tagmap fieldmap t tps] assms(1)
  have w1: "wf_metric st1 m1" and v1: "view st1 m1 = NewMetric rt nm tagmap fieldmap t tps" by auto
  from run_st_refines [OF w1, of grow' rt' cs] assms(2) v1 show ?thesis by auto
qed

end
